theory Spec2Isabelle
  imports Complex_Main "HOL-Library.Word" "HOL-Library.Multiset"
begin

chapter \<open>The model\<close>

section \<open>Values of type double\<close>

text \<open>
  The surveys, the biases and the decimation fraction are C++ \<open>double\<close>s. They are
  modelled by exact real arithmetic extended with the IEEE special values: \<open>NaN\<close> and the
  two infinities arise from division exactly as in IEEE 754 (\<open>0/0 = NaN\<close>, \<open>x/0\<close> is an
  infinity). The sign of zero is not modelled. Rounding is modelled where it decides an
  integer, in the product of line 300 (\<open>dmul_nearest\<close> below); the other operations are
  exact.
\<close>

datatype dbl = Fin real | PInf | NInf | NaN

fun dneg :: "dbl \<Rightarrow> dbl" where
  "dneg (Fin a) = Fin (- a)"
| "dneg PInf = NInf"
| "dneg NInf = PInf"
| "dneg NaN = NaN"

fun dadd :: "dbl \<Rightarrow> dbl \<Rightarrow> dbl" where
  "dadd (Fin a) (Fin b) = Fin (a + b)"
| "dadd NaN y = NaN"
| "dadd x NaN = NaN"
| "dadd PInf NInf = NaN"
| "dadd NInf PInf = NaN"
| "dadd PInf y = PInf"
| "dadd NInf y = NInf"
| "dadd (Fin a) y = y"

definition dsub :: "dbl \<Rightarrow> dbl \<Rightarrow> dbl" where
  "dsub x y = dadd x (dneg y)"

fun dmul :: "dbl \<Rightarrow> dbl \<Rightarrow> dbl" where
  "dmul (Fin a) (Fin b) = Fin (a * b)"
| "dmul NaN y = NaN"
| "dmul x NaN = NaN"
| "dmul (Fin a) y = (if a = 0 then NaN else if 0 < a then y else dneg y)"
| "dmul x (Fin b) = (if b = 0 then NaN else if 0 < b then x else dneg x)"
| "dmul PInf y = y"
| "dmul NInf y = dneg y"

fun ddiv :: "dbl \<Rightarrow> dbl \<Rightarrow> dbl" where
  "ddiv (Fin a) (Fin b) =
     (if b = 0 then (if a = 0 then NaN else if 0 < a then PInf else NInf)
      else Fin (a / b))"
| "ddiv NaN y = NaN"
| "ddiv x NaN = NaN"
| "ddiv (Fin a) y = Fin 0"
| "ddiv x (Fin b) = (if 0 \<le> b then x else dneg x)"
| "ddiv x y = NaN"

text \<open>The comparison \<open>x < y\<close>: false whenever an operand is \<open>NaN\<close>.\<close>

fun dless :: "dbl \<Rightarrow> dbl \<Rightarrow> bool" where
  "dless (Fin a) (Fin b) = (a < b)"
| "dless NaN y = False"
| "dless x NaN = False"
| "dless NInf y = (y \<noteq> NInf)"
| "dless x PInf = (x \<noteq> PInf)"
| "dless x y = False"

fun dabs :: "dbl \<Rightarrow> dbl" where
  "dabs (Fin a) = Fin \<bar>a\<bar>"
| "dabs PInf = PInf"
| "dabs NInf = PInf"
| "dabs NaN = NaN"

fun isnan :: "dbl \<Rightarrow> bool" where
  "isnan NaN = True"
| "isnan x = False"

text \<open>The comparison \<open>x != y\<close>: true whenever an operand is \<open>NaN\<close>.\<close>

definition dne :: "dbl \<Rightarrow> dbl \<Rightarrow> bool" where
  "dne x y = (isnan x \<or> isnan y \<or> x \<noteq> y)"

text \<open>A double that is a number of the closed unit interval.\<close>

fun unit_range :: "dbl \<Rightarrow> bool" where
  "unit_range (Fin a) = (0 \<le> a \<and> a \<le> 1)"
| "unit_range x = False"

text \<open>
  Rounding to the nearest double, ties to the even significand (the default rounding mode
  of IEEE 754). A double has 53 bits of significand: from \<open>2^e\<close> up to \<open>2^(e+1)\<close> the
  doubles are the multiples of \<open>2^(e-52)\<close>, below \<open>2^(-1022)\<close> those of \<open>2^(-1074)\<close>, and a
  rounded result of magnitude \<open>2^1024\<close> or more is an infinity.
\<close>

definition round_even :: "real \<Rightarrow> int" where
  "round_even y =
     (let n = \<lfloor>y\<rfloor>; d = y - of_int n
      in if d < 1 / 2 then n else if 1 / 2 < d then n + 1 else if even n then n else n + 1)"

text \<open>The exponent \<open>e\<close> of \<open>2^e \<le> x < 2^(e+1)\<close> for \<open>1 \<le> x\<close>, and \<open>-e\<close> for \<open>0 < x < 1\<close>.\<close>

function expo_up :: "real \<Rightarrow> nat" where
  "expo_up x = (if x < 2 then 0 else Suc (expo_up (x / 2)))"
  by pat_completeness auto

function expo_down :: "real \<Rightarrow> nat" where
  "expo_down x = (if x \<le> 0 \<or> 1 \<le> x then 0 else Suc (expo_down (2 * x)))"
  by pat_completeness auto

text \<open>The distance between neighbouring doubles at the magnitude \<open>x > 0\<close>.\<close>

definition ulp :: "real \<Rightarrow> real" where
  "ulp x = (if 1 \<le> x then 2 ^ expo_up x / 2 ^ 52 else 1 / 2 ^ min (expo_down x + 52) 1074)"

definition round_double :: "real \<Rightarrow> real" where
  "round_double x =
     (if x = 0 then 0
      else if 0 < x then ulp x * of_int (round_even (x / ulp x))
      else - (ulp (- x) * of_int (round_even (- x / ulp (- x)))))"

definition to_double :: "real \<Rightarrow> dbl" where
  "to_double x =
     (let y = round_double x
      in if 2 ^ 1024 \<le> y then PInf else if y \<le> - (2 ^ 1024) then NInf else Fin y)"

text \<open>The product of two doubles as the machine gives it.\<close>

definition dmul_nearest :: "dbl \<Rightarrow> dbl \<Rightarrow> dbl" where
  "dmul_nearest x y = (case dmul x y of Fin r \<Rightarrow> to_double r | z \<Rightarrow> z)"

section \<open>The factor graph\<close>

text \<open>
  Modelled from the spec: the classes \<open>Variable\<close>, \<open>Clause\<close>, \<open>Edge\<close> and
  \<open>FactorGraph\<close> (FactorGraph.hpp and its implementation are not among the sources).
  The objects live in three stores addressed by pointers (natural numbers); an edge holds
  the pointers of its clause and of its variable; the graph holds the vectors of pointers
  to its variables, clauses and edges.
\<close>

record Variable =
  v_value :: bool
  v_assigned :: bool
  v_evalValue :: dbl

record Clause =
  c_enabled :: bool

record Edge =
  e_type :: bool
  e_enabled :: bool
  e_survey :: dbl
  e_clause :: nat
  e_variable :: nat

record FactorGraph =
  variables :: "nat list"
  clauses :: "nat list"
  edges :: "nat list"
  varStore :: "nat \<Rightarrow> Variable"
  clauseStore :: "nat \<Rightarrow> Clause"
  edgeStore :: "nat \<Rightarrow> Edge"

text \<open>
  Modelled from the spec: the enabled views. An edge is present iff its own flag and the
  flag of its clause are set; every view filters on both, in the order of the graph's
  vectors.
\<close>

definition edge_on :: "FactorGraph \<Rightarrow> nat \<Rightarrow> bool" where
  "edge_on g e = (e_enabled (edgeStore g e) \<and> c_enabled (clauseStore g (e_clause (edgeStore g e))))"

definition GetEnabledClauses :: "FactorGraph \<Rightarrow> nat list" where
  "GetEnabledClauses g = filter (\<lambda>c. c_enabled (clauseStore g c)) (clauses g)"

definition GetEnabledEdges :: "FactorGraph \<Rightarrow> nat list" where
  "GetEnabledEdges g = filter (edge_on g) (edges g)"

definition Clause_GetEnabledEdges :: "FactorGraph \<Rightarrow> nat \<Rightarrow> nat list" where
  "Clause_GetEnabledEdges g c =
     filter (\<lambda>e. e_clause (edgeStore g e) = c \<and> edge_on g e) (edges g)"

definition Variable_GetEnabledEdges :: "FactorGraph \<Rightarrow> nat \<Rightarrow> nat list" where
  "Variable_GetEnabledEdges g v =
     filter (\<lambda>e. e_variable (edgeStore g e) = v \<and> edge_on g e) (edges g)"

definition GetUnassignedVariables :: "FactorGraph \<Rightarrow> nat list" where
  "GetUnassignedVariables g = filter (\<lambda>v. \<not> v_assigned (varStore g v)) (variables g)"

text \<open>Modelled from the spec: the mutation primitives; none of them propagates.\<close>

definition Clause_Dissable :: "FactorGraph \<Rightarrow> nat \<Rightarrow> FactorGraph" where
  "Clause_Dissable g c = g\<lparr>clauseStore := (clauseStore g)(c := (clauseStore g c)\<lparr>c_enabled := False\<rparr>)\<rparr>"

definition Edge_Dissable :: "FactorGraph \<Rightarrow> nat \<Rightarrow> FactorGraph" where
  "Edge_Dissable g e = g\<lparr>edgeStore := (edgeStore g)(e := (edgeStore g e)\<lparr>e_enabled := False\<rparr>)\<rparr>"

definition AssignValue :: "FactorGraph \<Rightarrow> nat \<Rightarrow> bool \<Rightarrow> FactorGraph" where
  "AssignValue g v b =
     g\<lparr>varStore := (varStore g)(v := (varStore g v)\<lparr>v_value := b, v_assigned := True\<rparr>)\<rparr>"

definition set_survey :: "FactorGraph \<Rightarrow> nat \<Rightarrow> dbl \<Rightarrow> FactorGraph" where
  "set_survey g e x = g\<lparr>edgeStore := (edgeStore g)(e := (edgeStore g e)\<lparr>e_survey := x\<rparr>)\<rparr>"

definition set_evalValue :: "FactorGraph \<Rightarrow> nat \<Rightarrow> dbl \<Rightarrow> FactorGraph" where
  "set_evalValue g v x = g\<lparr>varStore := (varStore g)(v := (varStore g v)\<lparr>v_evalValue := x\<rparr>)\<rparr>"

text \<open>
  Modelled from the spec: a clause is satisfied iff one of its enabled edges has an
  assigned variable whose value is the edge's type; the graph is satisfied iff every
  enabled clause is.
\<close>

definition edge_sat :: "FactorGraph \<Rightarrow> nat \<Rightarrow> bool" where
  "edge_sat g e =
     (v_assigned (varStore g (e_variable (edgeStore g e))) \<and>
      v_value (varStore g (e_variable (edgeStore g e))) = e_type (edgeStore g e))"

definition Clause_IsSAT :: "FactorGraph \<Rightarrow> nat \<Rightarrow> bool" where
  "Clause_IsSAT g c = list_ex (edge_sat g) (Clause_GetEnabledEdges g c)"

definition IsSAT :: "FactorGraph \<Rightarrow> bool" where
  "IsSAT g = list_all (Clause_IsSAT g) (GetEnabledClauses g)"

section \<open>Undefined behaviour\<close>

text \<open>
  The places where the C++ reads a vector out of range, dereferences a null pointer,
  builds a distribution over an empty range or converts a double that no \<open>int\<close> holds
  are branches of the model that return an error.
\<close>

datatype error = OutOfRange | NullPointer | EmptyDistribution | BadConversion

section \<open>Unit propagation\<close>

text \<open>Lines 115-127: the loop over the unit clauses; \<open>False\<close> is the conflict of line 125.\<close>

fun assign_units :: "FactorGraph \<Rightarrow> nat list \<Rightarrow> error + (bool \<times> FactorGraph)" where
  "assign_units g [] = Inr (True, g)"
| "assign_units g (c # cs) =
     (case Clause_GetEnabledEdges g c of
        [] \<Rightarrow> Inl OutOfRange
      | e # _ \<Rightarrow>
          (let v = e_variable (edgeStore g e) in
           if \<not> v_assigned (varStore g v)
           then assign_units (AssignValue g v (e_type (edgeStore g e))) cs
           else if e_type (edgeStore g e) \<noteq> v_value (varStore g v) then Inr (False, g)
           else assign_units g cs))"

text \<open>Lines 131-146: the loop over the edges of one clause, with its \<open>break\<close>.\<close>

fun clean_edges :: "FactorGraph \<Rightarrow> nat \<Rightarrow> nat list \<Rightarrow> FactorGraph" where
  "clean_edges g c [] = g"
| "clean_edges g c (e # es) =
     (if v_assigned (varStore g (e_variable (edgeStore g e)))
      then (if e_type (edgeStore g e) = v_value (varStore g (e_variable (edgeStore g e)))
            then Clause_Dissable g c
            else clean_edges (Edge_Dissable g e) c es)
      else clean_edges g c es)"

text \<open>Lines 130-152: the loop over the enabled clauses; \<open>False\<close> is the empty clause of line 150.\<close>

fun clean_clauses :: "FactorGraph \<Rightarrow> nat list \<Rightarrow> bool \<times> FactorGraph" where
  "clean_clauses g [] = (True, g)"
| "clean_clauses g (c # cs) =
     (let g' = clean_edges g c (Clause_GetEnabledEdges g c) in
      if c_enabled (clauseStore g' c) \<and> length (Clause_GetEnabledEdges g' c) = 0
      then (False, g')
      else clean_clauses g' cs)"

definition unit_clauses :: "FactorGraph \<Rightarrow> nat list" where
  "unit_clauses g = filter (\<lambda>c. length (Clause_GetEnabledEdges g c) = 1) (GetEnabledClauses g)"

text \<open>One pass of the \<open>while (true)\<close> of line 103, after the test of line 111.\<close>

definition UP_pass :: "FactorGraph \<Rightarrow> error + (bool \<times> FactorGraph)" where
  "UP_pass g =
     (case assign_units g (unit_clauses g) of
        Inl err \<Rightarrow> Inl err
      | Inr (ok, g1) \<Rightarrow>
          if \<not> ok then Inr (False, g1) else Inr (clean_clauses g1 (GetEnabledClauses g1)))"

text \<open>
  Lines 101-156. The \<open>while (true)\<close> is a recursion whose termination is proved below
  from the number of enabled edges, which every pass that does not return decreases.
\<close>

function UnitPropagation :: "FactorGraph \<Rightarrow> error + (bool \<times> FactorGraph)" where
  "UnitPropagation g =
     (if length (unit_clauses g) = 0 then Inr (True, g)
      else (case UP_pass g of
              Inl err \<Rightarrow> Inl err
            | Inr (ok, g') \<Rightarrow> if \<not> ok then Inr (False, g') else UnitPropagation g'))"
  by pat_completeness auto

text \<open>The same loop cut off after a number of passes; \<open>None\<close> is "still running".\<close>

fun UP_passes :: "nat \<Rightarrow> FactorGraph \<Rightarrow> (error + (bool \<times> FactorGraph)) option" where
  "UP_passes 0 g = None"
| "UP_passes (Suc n) g =
     (if length (unit_clauses g) = 0 then Some (Inr (True, g))
      else (case UP_pass g of
              Inl err \<Rightarrow> Some (Inl err)
            | Inr (ok, g') \<Rightarrow> if \<not> ok then Some (Inr (False, g')) else UP_passes n g'))"

text \<open>What the passes of unit propagation may do to a graph: disable, and nothing else.\<close>

definition shrinks :: "FactorGraph \<Rightarrow> FactorGraph \<Rightarrow> bool" where
  "shrinks g g' =
     (variables g' = variables g \<and> clauses g' = clauses g \<and> edges g' = edges g \<and>
      varStore g' = varStore g \<and>
      (\<forall>e. e_type (edgeStore g' e) = e_type (edgeStore g e) \<and>
           e_clause (edgeStore g' e) = e_clause (edgeStore g e) \<and>
           e_variable (edgeStore g' e) = e_variable (edgeStore g e) \<and>
           e_survey (edgeStore g' e) = e_survey (edgeStore g e) \<and>
           (e_enabled (edgeStore g' e) \<longrightarrow> e_enabled (edgeStore g e))) \<and>
      (\<forall>c. c_enabled (clauseStore g' c) \<longrightarrow> c_enabled (clauseStore g c)))"

text \<open>What the assignments of unit propagation may do: assign unassigned variables.\<close>

definition assigns :: "FactorGraph \<Rightarrow> FactorGraph \<Rightarrow> bool" where
  "assigns g g' =
     (variables g' = variables g \<and> clauses g' = clauses g \<and> edges g' = edges g \<and>
      clauseStore g' = clauseStore g \<and> edgeStore g' = edgeStore g \<and>
      (\<forall>v. v_evalValue (varStore g' v) = v_evalValue (varStore g v) \<and>
           (v_assigned (varStore g v) \<longrightarrow> varStore g' v = varStore g v) \<and>
           (v_assigned (varStore g' v) \<or> varStore g' v = varStore g v)))"

section \<open>Configuration and random source\<close>

text \<open>
  Modelled from the spec: the build-time constants of Configuration.hpp, which is not among
  the sources; they are parameters of the model.
\<close>

record Configuration =
  SP_MAX_ITERATIONS :: nat
  SP_EPSILON :: dbl
  WS_MAX_TRIES :: nat
  WS_MAX_FLIPS :: nat
  WS_NOISE :: dbl

text \<open>
  Modelled from the spec: the process-wide random source \<open>utils::RandomGen\<close> (Utils.hpp is
  not among the sources). Its state is threaded through the algorithms; the four draws are
  parameters: a real of [0,1), a boolean, an integer of \<open>{0..hi}\<close>, and \<open>std::shuffle\<close>
  with the source's generator.
\<close>

record 'r RandomGen =
  getRandomReal01 :: "'r \<Rightarrow> dbl \<times> 'r"
  getRandomBool :: "'r \<Rightarrow> bool \<times> 'r"
  uniformInt :: "nat \<Rightarrow> 'r \<Rightarrow> nat \<times> 'r"
  shuffle :: "nat list \<Rightarrow> 'r \<Rightarrow> nat list \<times> 'r"

section \<open>Survey propagation\<close>

text \<open>Lines 61-74: the products over the edges \<open>b\<rightarrow>j\<close>, \<open>b \<noteq> a\<close>.\<close>

fun products :: "FactorGraph \<Rightarrow> nat \<Rightarrow> nat list \<Rightarrow> dbl \<times> dbl \<times> dbl \<Rightarrow> dbl \<times> dbl \<times> dbl" where
  "products g aj [] (Pubj, Psbj, P0bj) = (Pubj, Psbj, P0bj)"
| "products g aj (bj # bs) (Pubj, Psbj, P0bj) =
     (if bj = aj then products g aj bs (Pubj, Psbj, P0bj)
      else products g aj bs
        (if e_type (edgeStore g bj) \<noteq> e_type (edgeStore g aj)
         then dmul Pubj (dsub (Fin 1) (e_survey (edgeStore g bj))) else Pubj,
         if e_type (edgeStore g bj) = e_type (edgeStore g aj)
         then dmul Psbj (dsub (Fin 1) (e_survey (edgeStore g bj))) else Psbj,
         dmul P0bj (dsub (Fin 1) (e_survey (edgeStore g bj)))))"

text \<open>Lines 56-82: the quotient \<open>div\<close> of the neighbour \<open>a\<rightarrow>j\<close>.\<close>

definition ratio :: "FactorGraph \<Rightarrow> nat \<Rightarrow> dbl" where
  "ratio g aj =
     (case products g aj (Variable_GetEnabledEdges g (e_variable (edgeStore g aj)))
             (Fin 1, Fin 1, Fin 1) of
        (Pubj, Psbj, P0bj) \<Rightarrow>
          (let Puaj = dmul (dsub (Fin 1) Pubj) Psbj;
               Psaj = dmul (dsub (Fin 1) Psbj) Pubj;
               P0aj = P0bj
           in ddiv Puaj (dadd (dadd Puaj Psaj) P0aj)))"

text \<open>Lines 52-92: the loop over the edges \<open>a\<rightarrow>j\<close>, \<open>j \<noteq> i\<close>, with its \<open>break\<close>.\<close>

fun survey_loop :: "FactorGraph \<Rightarrow> nat \<Rightarrow> nat list \<Rightarrow> dbl \<Rightarrow> dbl" where
  "survey_loop g ai [] Sai = Sai"
| "survey_loop g ai (aj # ajs) Sai =
     (if aj = ai then survey_loop g ai ajs Sai
      else if isnan (ratio g aj) then Fin 0
      else survey_loop g ai ajs (dmul Sai (ratio g aj)))"

definition UpdateSurvey :: "FactorGraph \<Rightarrow> nat \<Rightarrow> FactorGraph" where
  "UpdateSurvey g ai =
     set_survey g ai
       (survey_loop g ai (Clause_GetEnabledEdges g (e_clause (edgeStore g ai))) (Fin 1))"

text \<open>Lines 18-20.\<close>

fun init_surveys :: "'r RandomGen \<Rightarrow> FactorGraph \<Rightarrow> 'r \<Rightarrow> nat list \<Rightarrow> FactorGraph \<times> 'r" where
  "init_surveys R g rng [] = (g, rng)"
| "init_surveys R g rng (e # es) =
     (case getRandomReal01 R rng of
        (x, rng') \<Rightarrow> init_surveys R (set_survey g e x) rng' es)"

text \<open>Lines 31-39: one sweep; the flag is \<open>allEdgesConverged\<close>.\<close>

definition hasConverged :: "dbl \<Rightarrow> FactorGraph \<Rightarrow> nat \<Rightarrow> bool" where
  "hasConverged eps g e =
     dless (dabs (dsub (e_survey (edgeStore (UpdateSurvey g e) e)) (e_survey (edgeStore g e)))) eps"

fun sweep :: "dbl \<Rightarrow> FactorGraph \<Rightarrow> nat list \<Rightarrow> bool \<Rightarrow> bool \<times> FactorGraph" where
  "sweep eps g [] allEdgesConverged = (allEdgesConverged, g)"
| "sweep eps g (e # es) allEdgesConverged =
     sweep eps (UpdateSurvey g e) es
       (if \<not> hasConverged eps g e then False else allEdgesConverged)"

record SPResult =
  converged :: bool
  iterations :: nat

text \<open>
  Lines 23-42: the loop; its state is the vector \<open>edges\<close> (shuffled in place), the graph,
  the random source and the flag.
\<close>

type_synonym 'r sp_state = "nat list \<times> FactorGraph \<times> 'r \<times> bool"

definition sp_step :: "'r RandomGen \<Rightarrow> Configuration \<Rightarrow> 'r sp_state \<Rightarrow> 'r sp_state" where
  "sp_step R cfg s =
     (case s of (es, g, rng, allEdgesConverged) \<Rightarrow>
        (case shuffle R es rng of (es', rng') \<Rightarrow>
           (case sweep (SP_EPSILON cfg) g es' True of (c, g') \<Rightarrow> (es', g', rng', c))))"

function sp_loop :: "'r RandomGen \<Rightarrow> Configuration \<Rightarrow> nat \<Rightarrow> 'r sp_state \<Rightarrow> nat
    \<Rightarrow> SPResult \<times> FactorGraph \<times> 'r" where
  "sp_loop R cfg i s totalIt =
     (if i < SP_MAX_ITERATIONS cfg \<and> \<not> snd (snd (snd s))
      then sp_loop R cfg (i + 1) (sp_step R cfg s) (totalIt + 1)
      else (\<lparr>converged = snd (snd (snd s)), iterations = totalIt\<rparr>, fst (snd s), fst (snd (snd s))))"
  by pat_completeness auto

definition SurveyPropagation :: "'r RandomGen \<Rightarrow> Configuration \<Rightarrow> FactorGraph \<Rightarrow> 'r
    \<Rightarrow> SPResult \<times> FactorGraph \<times> 'r" where
  "SurveyPropagation R cfg g rng =
     (case init_surveys R g rng (GetEnabledEdges g) of
        (g0, rng0) \<Rightarrow> sp_loop R cfg 0 (GetEnabledEdges g, g0, rng0, False) 0)"

text \<open>The state after \<open>k\<close> sweeps of an unbounded run.\<close>

definition sp_sweeps :: "'r RandomGen \<Rightarrow> Configuration \<Rightarrow> nat \<Rightarrow> 'r sp_state \<Rightarrow> 'r sp_state" where
  "sp_sweeps R cfg k s = (sp_step R cfg ^^ k) s"

text \<open>The state in which the loop starts, and the flag \<open>allEdgesConverged\<close> of sweep \<open>k\<close>.\<close>

definition sp_start :: "'r RandomGen \<Rightarrow> FactorGraph \<Rightarrow> 'r \<Rightarrow> 'r sp_state" where
  "sp_start R g rng =
     (case init_surveys R g rng (GetEnabledEdges g) of
        (g0, rng0) \<Rightarrow> (GetEnabledEdges g, g0, rng0, False))"

definition sweep_flag :: "'r RandomGen \<Rightarrow> Configuration \<Rightarrow> 'r sp_state \<Rightarrow> nat \<Rightarrow> bool" where
  "sweep_flag R cfg s k = snd (snd (snd (sp_sweeps R cfg k s)))"

text \<open>The tests \<open>hasConverged\<close> of one sweep, in the order of the sweep.\<close>

fun sweep_changes :: "dbl \<Rightarrow> FactorGraph \<Rightarrow> nat list \<Rightarrow> bool list" where
  "sweep_changes eps g [] = []"
| "sweep_changes eps g (e # es) = hasConverged eps g e # sweep_changes eps (UpdateSurvey g e) es"

text \<open>
  Modelled from the spec: the defaults of the configuration constants (section 4.3 and 4.5 of
  the spec), for a graph of one variable.
\<close>

definition default_cfg :: Configuration where
  "default_cfg =
     \<lparr>SP_MAX_ITERATIONS = 1000, SP_EPSILON = Fin (1 / 100), WS_MAX_TRIES = 10,
      WS_MAX_FLIPS = 100, WS_NOISE = Fin (57 / 100)\<rparr>"

text \<open>
  A deterministic stand-in for the random source, on which the model can be run: the state
  counts the draws.
\<close>

definition counter_gen :: "nat RandomGen" where
  "counter_gen =
     \<lparr>getRandomReal01 = (\<lambda>n. (Fin (1 / 2), Suc n)),
      getRandomBool = (\<lambda>n. (even n, Suc n)),
      uniformInt = (\<lambda>hi n. (n mod Suc hi, Suc n)),
      shuffle = (\<lambda>es n. (rev es, Suc n))\<rparr>"

text \<open>
  The surveys that the update of the edge \<open>a\<rightarrow>i\<close> reads: those of the edges \<open>b\<rightarrow>j\<close>,
  \<open>b \<noteq> a\<close>, of the variables \<open>j\<close> of the other enabled edges \<open>a\<rightarrow>j\<close> of its clause.
\<close>

definition incident_surveys :: "FactorGraph \<Rightarrow> nat \<Rightarrow> dbl list" where
  "incident_surveys g ai =
     concat (map (\<lambda>aj. map (\<lambda>bj. e_survey (edgeStore g bj))
                          (filter (\<lambda>bj. bj \<noteq> aj)
                             (Variable_GetEnabledEdges g (e_variable (edgeStore g aj)))))
                (filter (\<lambda>aj. aj \<noteq> ai)
                   (Clause_GetEnabledEdges g (e_clause (edgeStore g ai)))))"

text \<open>Every enabled edge carries a survey of the unit interval.\<close>

definition surveys_in_range :: "FactorGraph \<Rightarrow> bool" where
  "surveys_in_range g = list_all (\<lambda>e. unit_range (e_survey (edgeStore g e))) (GetEnabledEdges g)"

section \<open>Walksat\<close>

text \<open>Lines 167-169, over the vector that \<open>GetUnassignedVariables\<close> returned.\<close>

fun assign_random :: "'r RandomGen \<Rightarrow> FactorGraph \<Rightarrow> 'r \<Rightarrow> nat list \<Rightarrow> FactorGraph \<times> 'r" where
  "assign_random R g rng [] = (g, rng)"
| "assign_random R g rng (v # vs) =
     (case getRandomBool R rng of
        (b, rng') \<Rightarrow> assign_random R (AssignValue g v b) rng' vs)"

text \<open>\<open>var->AssignValue(!var->value)\<close>.\<close>

definition flip :: "FactorGraph \<Rightarrow> nat \<Rightarrow> FactorGraph" where
  "flip g v = AssignValue g v (\<not> v_value (varStore g v))"

text \<open>
  Lines 201-219: the break counts of the variables of the selected clause, with the
  \<open>break\<close> of line 218. \<open>None\<close> is the null pointer.
\<close>

fun breakcount_loop :: "FactorGraph \<Rightarrow> nat list \<Rightarrow> nat list \<Rightarrow> nat option \<Rightarrow> nat
    \<Rightarrow> FactorGraph \<times> nat option \<times> nat" where
  "breakcount_loop g satClauses [] lowestBreakCountVar lowestBreakCount =
     (g, lowestBreakCountVar, lowestBreakCount)"
| "breakcount_loop g satClauses (e # es) lowestBreakCountVar lowestBreakCount =
     (let v = e_variable (edgeStore g e);
          g1 = flip g v;
          breakCount = length (filter (\<lambda>c. \<not> Clause_IsSAT g1 c) satClauses);
          g2 = flip g1 v;
          lowest = (if lowestBreakCountVar = None \<or> breakCount < lowestBreakCount
                    then (Some v, breakCount)
                    else (lowestBreakCountVar, lowestBreakCount))
      in if breakCount = 0 then (g2, fst lowest, snd lowest)
         else breakcount_loop g2 satClauses es (fst lowest) (snd lowest))"

text \<open>\<open>lowestBreakCountVar->AssignValue(!lowestBreakCountVar->value)\<close>.\<close>

definition flip_lowest :: "FactorGraph \<Rightarrow> nat option \<Rightarrow> error + FactorGraph" where
  "flip_lowest g lowestBreakCountVar =
     (case lowestBreakCountVar of None \<Rightarrow> Inl NullPointer | Some v \<Rightarrow> Inr (flip g v))"

text \<open>
  A draw of \<open>std::uniform_int_distribution<>(0, xs.size() - 1)\<close> used as an index of
  \<open>xs\<close>: undefined on the empty vector.
\<close>

definition random_element :: "'r RandomGen \<Rightarrow> nat list \<Rightarrow> 'r \<Rightarrow> error + (nat \<times> 'r)" where
  "random_element R xs rng =
     (if length xs = 0 then Inl EmptyDistribution
      else (case uniformInt R (length xs - 1) rng of
              (i, rng') \<Rightarrow> if i < length xs then Inr (xs ! i, rng') else Inl OutOfRange))"

text \<open>Lines 179-240: one flip, after the test of line 174.\<close>

definition flip_step :: "'r RandomGen \<Rightarrow> Configuration \<Rightarrow> FactorGraph \<Rightarrow> 'r
    \<Rightarrow> error + (FactorGraph \<times> 'r)" where
  "flip_step R cfg g rng =
     (let satClauses = filter (Clause_IsSAT g) (GetEnabledClauses g);
          unsatClauses = filter (\<lambda>c. \<not> Clause_IsSAT g c) (GetEnabledClauses g)
      in case random_element R unsatClauses rng of
           Inl err \<Rightarrow> Inl err
         | Inr (selectedClause, rng1) \<Rightarrow>
            (let selectedClauseEdges = Clause_GetEnabledEdges g selectedClause
             in case breakcount_loop g satClauses selectedClauseEdges None (length satClauses + 1) of
                  (g1, lowestBreakCountVar, lowestBreakCount) \<Rightarrow>
                    if lowestBreakCount = 0
                    then (case flip_lowest g1 lowestBreakCountVar of
                            Inl err \<Rightarrow> Inl err | Inr g2 \<Rightarrow> Inr (g2, rng1))
                    else (case getRandomReal01 R rng1 of
                            (x, rng2) \<Rightarrow>
                              if dless (WS_NOISE cfg) x
                              then (case flip_lowest g1 lowestBreakCountVar of
                                      Inl err \<Rightarrow> Inl err | Inr g2 \<Rightarrow> Inr (g2, rng2))
                              else (case random_element R selectedClauseEdges rng2 of
                                      Inl err \<Rightarrow> Inl err
                                    | Inr (edge, rng3) \<Rightarrow>
                                        Inr (flip g1 (e_variable (edgeStore g1 edge)), rng3)))))"

text \<open>Lines 172-241: the flips that remain of a try; \<open>True\<close> is the return of line 174.\<close>

fun flips :: "'r RandomGen \<Rightarrow> Configuration \<Rightarrow> nat \<Rightarrow> FactorGraph \<Rightarrow> 'r
    \<Rightarrow> error + (bool \<times> FactorGraph \<times> 'r)" where
  "flips R cfg 0 g rng = Inr (False, g, rng)"
| "flips R cfg (Suc n) g rng =
     (if IsSAT g then Inr (True, g, rng)
      else (case flip_step R cfg g rng of
              Inl err \<Rightarrow> Inl err
            | Inr (g', rng') \<Rightarrow> flips R cfg n g' rng'))"

text \<open>The start of a try, lines 167-169.\<close>

definition try_start :: "'r RandomGen \<Rightarrow> FactorGraph \<Rightarrow> 'r \<Rightarrow> FactorGraph \<times> 'r" where
  "try_start R g rng = assign_random R g rng (GetUnassignedVariables g)"

text \<open>Lines 165-242: the tries that remain.\<close>

fun tries :: "'r RandomGen \<Rightarrow> Configuration \<Rightarrow> nat \<Rightarrow> FactorGraph \<Rightarrow> 'r
    \<Rightarrow> error + (bool \<times> FactorGraph \<times> 'r)" where
  "tries R cfg 0 g rng = Inr (False, g, rng)"
| "tries R cfg (Suc n) g rng =
     (case try_start R g rng of
        (g1, rng1) \<Rightarrow>
          (case flips R cfg (WS_MAX_FLIPS cfg) g1 rng1 of
             Inl err \<Rightarrow> Inl err
           | Inr (found, g2, rng2) \<Rightarrow>
               if found then Inr (True, g2, rng2) else tries R cfg n g2 rng2))"

definition Walksat :: "'r RandomGen \<Rightarrow> Configuration \<Rightarrow> FactorGraph \<Rightarrow> 'r
    \<Rightarrow> error + (bool \<times> FactorGraph \<times> 'r)" where
  "Walksat R cfg g rng = tries R cfg (WS_MAX_TRIES cfg) g rng"

text \<open>What Walksat may do to a graph: write the value and the flag of variables.\<close>

definition only_values :: "FactorGraph \<Rightarrow> FactorGraph \<Rightarrow> bool" where
  "only_values g g' =
     (variables g' = variables g \<and> clauses g' = clauses g \<and> edges g' = edges g \<and>
      clauseStore g' = clauseStore g \<and> edgeStore g' = edgeStore g \<and>
      (\<forall>v. v_evalValue (varStore g' v) = v_evalValue (varStore g v)))"

section \<open>Survey inspired decimation\<close>

text \<open>Lines 351-361 of \<open>EvaluateVariable\<close>: the products over the edges of the variable.\<close>

fun bias_products :: "FactorGraph \<Rightarrow> nat list \<Rightarrow> dbl \<times> dbl \<times> dbl \<Rightarrow> dbl \<times> dbl \<times> dbl" where
  "bias_products g [] (PVi0, PViP, PViN) = (PVi0, PViP, PViN)"
| "bias_products g (ai # ais) (PVi0, PViP, PViN) =
     bias_products g ais
       (dmul PVi0 (dsub (Fin 1) (e_survey (edgeStore g ai))),
        if e_type (edgeStore g ai)
        then dmul PViP (dsub (Fin 1) (e_survey (edgeStore g ai))) else PViP,
        if e_type (edgeStore g ai)
        then PViN else dmul PViN (dsub (Fin 1) (e_survey (edgeStore g ai))))"

text \<open>Lines 363-375: the bias \<open>Wi(+) - Wi(-)\<close> from the three products.\<close>

definition bias :: "dbl \<Rightarrow> dbl \<Rightarrow> dbl \<Rightarrow> dbl" where
  "bias PVi0 PViP PViN =
     (let PiP = dmul (dsub (Fin 1) PViP) PViN;
          PiN = dmul (dsub (Fin 1) PViN) PViP;
          Pi0 = PVi0;
          WiP = ddiv PiP (dadd (dadd PiP PiN) Pi0);
          WiN = ddiv PiN (dadd (dadd PiP PiN) Pi0)
      in if isnan WiP \<or> isnan WiN then Fin 0 else dsub WiP WiN)"

text \<open>Lines 341-376.\<close>

definition EvaluateVariable :: "FactorGraph \<Rightarrow> nat \<Rightarrow> FactorGraph" where
  "EvaluateVariable g v =
     (case bias_products g (Variable_GetEnabledEdges g v) (Fin 1, Fin 1, Fin 1) of
        (PVi0, PViP, PViN) \<Rightarrow> set_evalValue g v (bias PVi0 PViP PViN))"

text \<open>Lines 293-297.\<close>

fun evaluate_all :: "FactorGraph \<Rightarrow> nat list \<Rightarrow> FactorGraph" where
  "evaluate_all g [] = g"
| "evaluate_all g (v # vs) = evaluate_all (EvaluateVariable g v) vs"

text \<open>Lines 269-275.\<close>

definition allTrivial :: "FactorGraph \<Rightarrow> bool" where
  "allTrivial g = (\<not> list_ex (\<lambda>e. dne (e_survey (edgeStore g e)) (Fin 0)) (GetEnabledEdges g))"

text \<open>
  The conversion \<open>(int) x\<close> of line 300: truncation towards zero, undefined when no
  32-bit \<open>int\<close> holds the truncated value.
\<close>

definition to_int :: "dbl \<Rightarrow> error + int" where
  "to_int x =
     (case x of
        Fin r \<Rightarrow>
          (let t = (if 0 \<le> r then \<lfloor>r\<rfloor> else \<lceil>r\<rceil>)
           in if - 2147483648 \<le> t \<and> t \<le> 2147483647 then Inr t else Inl BadConversion)
      | _ \<Rightarrow> Inl BadConversion)"

text \<open>
  Lines 300-301, for a vector of \<open>n\<close> unassigned variables: \<open>size()\<close> is converted to the
  nearest double, and the product is the double product.
\<close>

definition assignFraction :: "nat \<Rightarrow> dbl \<Rightarrow> error + int" where
  "assignFraction n fraction =
     (case to_int (dmul_nearest (to_double (real n)) fraction) of
        Inl err \<Rightarrow> Inl err
      | Inr a \<Rightarrow> Inr (if a < 1 then 1 else a))"

text \<open>The comparator of line 304.\<close>

definition larger_bias :: "FactorGraph \<Rightarrow> nat \<Rightarrow> nat \<Rightarrow> bool" where
  "larger_bias g lvar rvar =
     dless (dabs (v_evalValue (varStore g rvar))) (dabs (v_evalValue (varStore g lvar)))"

text \<open>
  \<open>std::sort\<close> with that comparator (lines 302-305). The standard leaves the order of
  equivalent elements to the library, which is not among the sources: the library's choice
  is a parameter of the model, a rank of the elements that the library may choose from
  the graph and the vector it is given. The vector is sorted by the comparator and, among
  equivalent elements, by that rank. Every order that \<open>std::sort\<close> may leave is the result
  for some rank (lemma \<open>std_sort_covers\<close> below).
\<close>

type_synonym tie_order = "FactorGraph \<Rightarrow> nat list \<Rightarrow> nat \<Rightarrow> nat"

definition sorts_before :: "(nat \<Rightarrow> nat) \<Rightarrow> FactorGraph \<Rightarrow> nat \<Rightarrow> nat \<Rightarrow> bool" where
  "sorts_before rank g l r =
     (larger_bias g l r \<or> (\<not> larger_bias g r l \<and> rank l < rank r))"

fun sort_insert :: "(nat \<Rightarrow> nat) \<Rightarrow> FactorGraph \<Rightarrow> nat \<Rightarrow> nat list \<Rightarrow> nat list" where
  "sort_insert rank g x [] = [x]"
| "sort_insert rank g x (y # ys) =
     (if sorts_before rank g y x then y # sort_insert rank g x ys else x # y # ys)"

definition std_sort :: "tie_order \<Rightarrow> FactorGraph \<Rightarrow> nat list \<Rightarrow> nat list" where
  "std_sort ties g xs = foldr (sort_insert (ties g xs) g) xs []"

text \<open>A library that keeps equivalent elements in the order in which it finds them.\<close>

definition keep_order :: tie_order where
  "keep_order g xs v = 0"

text \<open>Lines 313-319: the loop over the enabled edges of the variable just assigned.\<close>

fun disable_edges :: "FactorGraph \<Rightarrow> nat \<Rightarrow> nat list \<Rightarrow> FactorGraph" where
  "disable_edges g var [] = g"
| "disable_edges g var (edge # es) =
     disable_edges
       (if e_type (edgeStore g edge) = v_value (varStore g var)
        then Clause_Dissable g (e_clause (edgeStore g edge))
        else Edge_Dissable g edge)
       var es"

text \<open>Lines 308-319: the body of the loop of line 307.\<close>

definition decimate_var :: "FactorGraph \<Rightarrow> nat \<Rightarrow> FactorGraph" where
  "decimate_var g var =
     (let newValue = dless (Fin 0) (v_evalValue (varStore g var));
          g1 = AssignValue g var newValue
      in disable_edges g1 var (Variable_GetEnabledEdges g1 var))"

text \<open>
  Lines 307-320: the loop from index \<open>i\<close> with \<open>n\<close> rounds to go; reading the sorted
  vector past its end is undefined.
\<close>

fun decimate_loop :: "FactorGraph \<Rightarrow> nat list \<Rightarrow> nat \<Rightarrow> nat \<Rightarrow> error + FactorGraph" where
  "decimate_loop g unassignedVariables i 0 = Inr g"
| "decimate_loop g unassignedVariables i (Suc n) =
     (if i < length unassignedVariables
      then decimate_loop (decimate_var g (unassignedVariables ! i)) unassignedVariables (i + 1) n
      else Inl OutOfRange)"

text \<open>Lines 299-320: the count, the sort and the loop over the first variables.\<close>

definition decimate_step :: "tie_order \<Rightarrow> FactorGraph \<Rightarrow> nat list \<Rightarrow> dbl
    \<Rightarrow> error + FactorGraph" where
  "decimate_step ties g unassignedVariables fraction =
     (case assignFraction (length unassignedVariables) fraction of
        Inl err \<Rightarrow> Inl err
      | Inr k \<Rightarrow> decimate_loop g (std_sort ties g unassignedVariables) 0 (nat k))"

text \<open>Lines 290-320: bias evaluation and decimation.\<close>

definition decimation :: "tie_order \<Rightarrow> FactorGraph \<Rightarrow> dbl \<Rightarrow> error + FactorGraph" where
  "decimation ties g fraction =
     (let unassignedVariables = GetUnassignedVariables g
      in decimate_step ties (evaluate_all g unassignedVariables) unassignedVariables fraction)"

text \<open>
  The result record of lines 251-339. The two time stamps are readings of the clock and
  are not modelled; \<open>uint\<close> is a 32-bit word.
\<close>

record SIDResult =
  SAT :: bool
  totalSPIterations :: "32 word"

text \<open>
  One round of the \<open>while (true)\<close> of line 256: either SID returns (\<open>Inr (Inl _)\<close>), or
  the loop goes on with a graph, a random source and a count (\<open>Inr (Inr _)\<close>).
\<close>

definition SID_round :: "tie_order \<Rightarrow> 'r RandomGen \<Rightarrow> Configuration \<Rightarrow> dbl \<Rightarrow> FactorGraph \<Rightarrow> 'r \<Rightarrow> 32 word
    \<Rightarrow> error + ((SIDResult \<times> FactorGraph \<times> 'r) + (FactorGraph \<times> 'r \<times> 32 word))" where
  "SID_round ties R cfg fraction g rng totalSPIt =
     (case SurveyPropagation R cfg g rng of
        (spResult, g1, rng1) \<Rightarrow>
          (let totalSPIt1 = totalSPIt + of_nat (iterations spResult)
           in if \<not> converged spResult
              then Inr (Inl (\<lparr>SAT = False, totalSPIterations = totalSPIt1\<rparr>, g1, rng1))
              else if allTrivial g1
              then (case Walksat R cfg g1 rng1 of
                      Inl err \<Rightarrow> Inl err
                    | Inr (walksatResult, g2, rng2) \<Rightarrow>
                        Inr (Inl (\<lparr>SAT = walksatResult, totalSPIterations = totalSPIt1\<rparr>, g2, rng2)))
              else (case decimation ties g1 fraction of
                      Inl err \<Rightarrow> Inl err
                    | Inr g3 \<Rightarrow>
                        (case UnitPropagation g3 of
                           Inl err \<Rightarrow> Inl err
                         | Inr (UPResult, g4) \<Rightarrow>
                             if \<not> UPResult
                             then Inr (Inl (\<lparr>SAT = False, totalSPIterations = totalSPIt1\<rparr>, g4, rng1))
                             else if IsSAT g4
                             then Inr (Inl (\<lparr>SAT = True, totalSPIterations = totalSPIt1\<rparr>, g4, rng1))
                             else Inr (Inr (g4, rng1, totalSPIt1))))))"

text \<open>
  Lines 251-339. The \<open>while (true)\<close> has no bound of its own: the loop is a partial
  function, and \<open>None\<close> is a run that never returns.
\<close>

partial_function (option) SID_loop :: "tie_order \<Rightarrow> 'r RandomGen \<Rightarrow> Configuration \<Rightarrow> dbl \<Rightarrow> FactorGraph \<Rightarrow> 'r
    \<Rightarrow> 32 word \<Rightarrow> (error + (SIDResult \<times> FactorGraph \<times> 'r)) option" where
  "SID_loop ties R cfg fraction g rng totalSPIt =
     (case SID_round ties R cfg fraction g rng totalSPIt of
        Inl err \<Rightarrow> Some (Inl err)
      | Inr (Inl res) \<Rightarrow> Some (Inr res)
      | Inr (Inr (g', rng', totalSPIt')) \<Rightarrow> SID_loop ties R cfg fraction g' rng' totalSPIt')"

definition SID :: "tie_order \<Rightarrow> 'r RandomGen \<Rightarrow> Configuration \<Rightarrow> FactorGraph \<Rightarrow> dbl \<Rightarrow> 'r
    \<Rightarrow> (error + (SIDResult \<times> FactorGraph \<times> 'r)) option" where
  "SID ties R cfg graph fraction rng = SID_loop ties R cfg fraction graph rng 0"

text \<open>No variable of the graph loses its assigned flag.\<close>

definition keeps_assigned :: "FactorGraph \<Rightarrow> FactorGraph \<Rightarrow> bool" where
  "keeps_assigned g g' =
     (variables g' = variables g \<and>
      list_all (\<lambda>v. v_assigned (varStore g' v) \<or> \<not> v_assigned (varStore g v)) (variables g))"

text \<open>What bias evaluation may do to a graph: write the bias of variables.\<close>

definition only_bias :: "FactorGraph \<Rightarrow> FactorGraph \<Rightarrow> bool" where
  "only_bias g g' =
     (variables g' = variables g \<and> clauses g' = clauses g \<and> edges g' = edges g \<and>
      clauseStore g' = clauseStore g \<and> edgeStore g' = edgeStore g \<and>
      (\<forall>v. v_value (varStore g' v) = v_value (varStore g v) \<and>
           v_assigned (varStore g' v) = v_assigned (varStore g v)))"

section \<open>Small graphs\<close>

text \<open>
  Modelled from the spec: the graph that the construction from DIMACS gives for scenario S1,
  \<open>p cnf 1 1\<close> with the clause \<open>1 0\<close>: one variable, one clause, one positive edge, every
  survey 0, everything enabled, nothing assigned.
\<close>

definition S1_graph :: FactorGraph where
  "S1_graph =
     \<lparr>variables = [1], clauses = [1], edges = [1],
      varStore = (\<lambda>v. \<lparr>v_value = False, v_assigned = False, v_evalValue = Fin 0\<rparr>),
      clauseStore = (\<lambda>c. \<lparr>c_enabled = True\<rparr>),
      edgeStore = (\<lambda>e. \<lparr>e_type = True, e_enabled = True, e_survey = Fin 0,
                          e_clause = 1, e_variable = 1\<rparr>)\<rparr>"

text \<open>
  Modelled from the spec: the graph of \<open>p cnf 2 3\<close> with the clauses \<open>1 0\<close>, \<open>-1 0\<close> and
  \<open>1 2 0\<close>, in which the surveys of the two unit clauses are 1, as a sweep of survey
  propagation leaves them. Edge 3 is the occurrence of variable 1 in the third clause,
  edge 4 that of variable 2.
\<close>

definition nan_graph :: FactorGraph where
  "nan_graph =
     \<lparr>variables = [1, 2], clauses = [1, 2, 3], edges = [1, 2, 3, 4],
      varStore = (\<lambda>v. \<lparr>v_value = False, v_assigned = False, v_evalValue = Fin 0\<rparr>),
      clauseStore = (\<lambda>c. \<lparr>c_enabled = True\<rparr>),
      edgeStore = (\<lambda>e. \<lparr>e_type = (e \<noteq> 2), e_enabled = True,
                          e_survey = (if e \<le> 2 then Fin 1 else Fin 0),
                          e_clause = (if e = 4 then 3 else e),
                          e_variable = (if e = 4 then 2 else 1)\<rparr>)\<rparr>"

text \<open>
  Modelled from the spec: the graph that the construction from DIMACS gives for scenario S2,
  \<open>p cnf 1 2\<close> with the clauses \<open>1 0\<close> and \<open>-1 0\<close>: edge 1 is the positive occurrence of
  variable 1 in clause 1, edge 2 its negative occurrence in clause 2.
\<close>

definition S2_graph :: FactorGraph where
  "S2_graph =
     \<lparr>variables = [1], clauses = [1, 2], edges = [1, 2],
      varStore = (\<lambda>v. \<lparr>v_value = False, v_assigned = False, v_evalValue = Fin 0\<rparr>),
      clauseStore = (\<lambda>c. \<lparr>c_enabled = True\<rparr>),
      edgeStore = (\<lambda>e. \<lparr>e_type = (e = 1), e_enabled = True, e_survey = Fin 0,
                          e_clause = e, e_variable = 1\<rparr>)\<rparr>"

text \<open>
  The states of that graph in a run of SID: its topology; the state before the first
  decimation; and the state after it, in which clause 1 is enabled and has no enabled edge.
\<close>

definition S2_shape :: "FactorGraph \<Rightarrow> bool" where
  "S2_shape g =
     (variables g = [1] \<and> clauses g = [1, 2] \<and> edges g = [1, 2] \<and>
      e_clause (edgeStore g 1) = 1 \<and> e_clause (edgeStore g 2) = 2 \<and>
      e_variable (edgeStore g 1) = 1 \<and> e_variable (edgeStore g 2) = 1 \<and>
      e_type (edgeStore g 1) \<and> \<not> e_type (edgeStore g 2))"

definition S2_fresh :: "FactorGraph \<Rightarrow> bool" where
  "S2_fresh g =
     (S2_shape g \<and> e_enabled (edgeStore g 1) \<and> e_enabled (edgeStore g 2) \<and>
      c_enabled (clauseStore g 1) \<and> c_enabled (clauseStore g 2) \<and>
      \<not> v_assigned (varStore g 1))"

definition S2_stuck :: "FactorGraph \<Rightarrow> bool" where
  "S2_stuck g =
     (S2_shape g \<and> \<not> e_enabled (edgeStore g 1) \<and>
      c_enabled (clauseStore g 1) \<and> \<not> c_enabled (clauseStore g 2) \<and>
      v_assigned (varStore g 1))"

text \<open>
  The graph of scenario S2 after the decimation step of SID has assigned variable 1 to
  false: edge 1 (positive) is disabled, clause 2 (satisfied) is disabled.
\<close>

definition S2_decimated :: FactorGraph where
  "S2_decimated = Clause_Dissable (Edge_Dissable (AssignValue S2_graph 1 False) 1) 2"

text \<open>The enabled clauses without an enabled edge.\<close>

definition contradictory_clauses :: "FactorGraph \<Rightarrow> nat list" where
  "contradictory_clauses g =
     filter (\<lambda>c. length (Clause_GetEnabledEdges g c) = 0) (GetEnabledClauses g)"

text \<open>
  Modelled from the spec: the graph that the construction from DIMACS gives for
  \<open>p cnf 2 1\<close> with the clause \<open>1 2 0\<close>.
\<close>

definition pair_graph :: FactorGraph where
  "pair_graph =
     \<lparr>variables = [1, 2], clauses = [1], edges = [1, 2],
      varStore = (\<lambda>v. \<lparr>v_value = False, v_assigned = False, v_evalValue = Fin 0\<rparr>),
      clauseStore = (\<lambda>c. \<lparr>c_enabled = True\<rparr>),
      edgeStore = (\<lambda>e. \<lparr>e_type = True, e_enabled = True, e_survey = Fin 0,
                          e_clause = 1, e_variable = e\<rparr>)\<rparr>"



section \<open>The invariant of the loop of SID\<close>

definition wf_graph :: "FactorGraph \<Rightarrow> bool" where
  "wf_graph g =
     list_all (\<lambda>e. e_clause (edgeStore g e) \<in> set (clauses g) \<and>
                   e_variable (edgeStore g e) \<in> set (variables g)) (edges g)"

definition no_assigned_edges :: "FactorGraph \<Rightarrow> bool" where
  "no_assigned_edges g =
     list_all (\<lambda>e. \<not> v_assigned (varStore g (e_variable (edgeStore g e)))) (GetEnabledEdges g)"

definition only_surveys :: "FactorGraph \<Rightarrow> FactorGraph \<Rightarrow> bool" where
  "only_surveys g g' =
     (variables g' = variables g \<and> clauses g' = clauses g \<and> edges g' = edges g \<and>
      varStore g' = varStore g \<and> clauseStore g' = clauseStore g \<and>
      (\<forall>e. e_type (edgeStore g' e) = e_type (edgeStore g e) \<and>
           e_enabled (edgeStore g' e) = e_enabled (edgeStore g e) \<and>
           e_clause (edgeStore g' e) = e_clause (edgeStore g e) \<and>
           e_variable (edgeStore g' e) = e_variable (edgeStore g e)))"

chapter \<open>Lemmas\<close>

section \<open>Every pass of unit propagation disables an edge\<close>

lemma filter_length_mono:
  "(\<And>x. x \<in> set xs \<Longrightarrow> P x \<Longrightarrow> Q x) \<Longrightarrow> length (filter P xs) \<le> length (filter Q xs)"
  by (induction xs) auto

lemma filter_length_strict:
  "(\<And>x. x \<in> set xs \<Longrightarrow> P x \<Longrightarrow> Q x) \<Longrightarrow> y \<in> set xs \<Longrightarrow> Q y \<Longrightarrow> \<not> P y
     \<Longrightarrow> length (filter P xs) < length (filter Q xs)"
proof (induction xs)
  case Nil
  then show ?case by simp
next
  case (Cons x xs)
  have le: "length (filter P xs) \<le> length (filter Q xs)"
    using Cons.prems(1) by (intro filter_length_mono) auto
  show ?case
  proof (cases "y = x")
    case True
    then show ?thesis using Cons.prems le by auto
  next
    case False
    then have "length (filter P xs) < length (filter Q xs)"
      using Cons by auto
    then show ?thesis using Cons.prems(1)[of x] by auto
  qed
qed

lemma shrinks_refl: "shrinks g g"
  by (simp add: shrinks_def)

lemma shrinks_trans: "shrinks g g1 \<Longrightarrow> shrinks g1 g2 \<Longrightarrow> shrinks g g2"
  by (simp add: shrinks_def)

lemma shrinks_Clause_Dissable: "shrinks g (Clause_Dissable g c)"
  by (simp add: shrinks_def Clause_Dissable_def)

lemma shrinks_Edge_Dissable: "shrinks g (Edge_Dissable g e)"
  by (simp add: shrinks_def Edge_Dissable_def)

lemma shrinks_edge_on: "shrinks g g' \<Longrightarrow> edge_on g' e \<Longrightarrow> edge_on g e"
  by (simp add: shrinks_def edge_on_def)

lemma shrinks_clean_edges: "shrinks g (clean_edges g c es)"
proof (induction es arbitrary: g)
  case Nil
  show ?case by (simp add: shrinks_refl)
next
  case (Cons e es)
  show ?case
    using shrinks_Clause_Dissable[of g c] shrinks_trans[OF shrinks_Edge_Dissable[of g e] Cons[of "Edge_Dissable g e"]] Cons[of g]
    by simp
qed

lemma shrinks_clean_clauses: "clean_clauses g cs = (ok, g') \<Longrightarrow> shrinks g g'"
proof (induction cs arbitrary: g)
  case Nil
  then show ?case by (simp add: shrinks_refl)
next
  case (Cons c cs)
  let ?g1 = "clean_edges g c (Clause_GetEnabledEdges g c)"
  have s1: "shrinks g ?g1" by (rule shrinks_clean_edges)
  from Cons.prems have "g' = ?g1 \<or> clean_clauses ?g1 cs = (ok, g')"
    by (auto simp: Let_def split: if_splits)
  then show ?case using Cons.IH s1 shrinks_trans by blast
qed

lemma assigns_refl: "assigns g g"
  by (simp add: assigns_def)

lemma assigns_trans: "assigns g g1 \<Longrightarrow> assigns g1 g2 \<Longrightarrow> assigns g g2"
  unfolding assigns_def by metis

lemma assigns_AssignValue:
  "\<not> v_assigned (varStore g v) \<Longrightarrow> assigns g (AssignValue g v b)"
  by (auto simp: assigns_def AssignValue_def)

lemma assigns_views:
  assumes "assigns g g'"
  shows "edge_on g' = edge_on g"
    and "Clause_GetEnabledEdges g' = Clause_GetEnabledEdges g"
    and "GetEnabledClauses g' = GetEnabledClauses g"
    and "GetEnabledEdges g' = GetEnabledEdges g"
    and "unit_clauses g' = unit_clauses g"
proof -
  show a: "edge_on g' = edge_on g"
    using assms by (auto simp: assigns_def edge_on_def fun_eq_iff)
  show b: "Clause_GetEnabledEdges g' = Clause_GetEnabledEdges g"
    using assms a by (auto simp: assigns_def Clause_GetEnabledEdges_def fun_eq_iff)
  show c: "GetEnabledClauses g' = GetEnabledClauses g"
    using assms by (auto simp: assigns_def GetEnabledClauses_def)
  show "GetEnabledEdges g' = GetEnabledEdges g"
    using assms a by (auto simp: assigns_def GetEnabledEdges_def)
  show "unit_clauses g' = unit_clauses g"
    using b c by (simp add: unit_clauses_def)
qed

lemma assigns_assign_units: "assign_units g cs = Inr (ok, g') \<Longrightarrow> assigns g g'"
proof (induction cs arbitrary: g)
  case Nil
  then show ?case by (simp add: assigns_refl)
next
  case (Cons c cs)
  show ?case
  proof (cases "Clause_GetEnabledEdges g c")
    case Nil
    then show ?thesis using Cons.prems by simp
  next
    case (Cons e es)
    let ?v = "e_variable (edgeStore g e)"
    show ?thesis
    proof (cases "v_assigned (varStore g ?v)")
      case True
      then have "g' = g \<or> assign_units g cs = Inr (ok, g')"
        using Cons.prems Cons by (auto simp: Let_def split: if_splits)
      then show ?thesis using Cons.IH assigns_refl by auto
    next
      case False
      then have "assign_units (AssignValue g ?v (e_type (edgeStore g e))) cs = Inr (ok, g')"
        using Cons.prems Cons by (simp add: Let_def)
      then show ?thesis
        using Cons.IH assigns_AssignValue[OF False] assigns_trans by blast
    qed
  qed
qed

lemma assigns_edge_sat: "assigns g g' \<Longrightarrow> edge_sat g e \<Longrightarrow> edge_sat g' e"
  by (auto simp: assigns_def edge_sat_def)

lemma edge_sat_AssignValue:
  "edge_sat (AssignValue g (e_variable (edgeStore g e)) (e_type (edgeStore g e))) e"
  by (simp add: edge_sat_def AssignValue_def)

lemma assign_units_sat:
  "assign_units g cs = Inr (True, g') \<Longrightarrow> c \<in> set cs
     \<Longrightarrow> Clause_GetEnabledEdges g c = e # es \<Longrightarrow> edge_sat g' e"
proof (induction cs arbitrary: g)
  case Nil
  then show ?case by simp
next
  case (Cons c' cs)
  obtain e' es' where ce: "Clause_GetEnabledEdges g c' = e' # es'"
    using Cons.prems(1) by (cases "Clause_GetEnabledEdges g c'") auto
  let ?v = "e_variable (edgeStore g e')"
  show ?case
  proof (cases "v_assigned (varStore g ?v)")
    case True
    then have ok: "e_type (edgeStore g e') = v_value (varStore g ?v)"
      and rest: "assign_units g cs = Inr (True, g')"
      using Cons.prems(1) ce by (auto simp: Let_def split: if_splits)
    show ?thesis
    proof (cases "c \<in> set cs")
      case True
      then show ?thesis using Cons.IH rest Cons.prems(3) by blast
    next
      case False
      then have "c = c'" using Cons.prems(2) by simp
      then have "e = e'" using ce Cons.prems(3) by simp
      then have "edge_sat g e" using True ok by (simp add: edge_sat_def)
      then show ?thesis using assigns_edge_sat assigns_assign_units rest by blast
    qed
  next
    case False
    let ?g1 = "AssignValue g ?v (e_type (edgeStore g e'))"
    have rest: "assign_units ?g1 cs = Inr (True, g')"
      using Cons.prems(1) ce False by (simp add: Let_def)
    have a1: "assigns g ?g1" using False by (rule assigns_AssignValue)
    show ?thesis
    proof (cases "c \<in> set cs")
      case True
      have "Clause_GetEnabledEdges ?g1 c = e # es"
        using assigns_views(2)[OF a1] Cons.prems(3) by simp
      then show ?thesis using Cons.IH rest True by blast
    next
      case False
      then have "c = c'" using Cons.prems(2) by simp
      then have "e = e'" using ce Cons.prems(3) by simp
      then have "edge_sat ?g1 e" using edge_sat_AssignValue by simp
      then show ?thesis using assigns_edge_sat assigns_assign_units rest by blast
    qed
  qed
qed

lemma shrinks_Clause_edges:
  "shrinks g g' \<Longrightarrow> e \<in> set (Clause_GetEnabledEdges g' c) \<Longrightarrow> e \<in> set (Clause_GetEnabledEdges g c)"
  by (auto simp: shrinks_def Clause_GetEnabledEdges_def edge_on_def)

lemma Clause_Dissable_no_edges:
  "shrinks (Clause_Dissable g c) g' \<Longrightarrow> Clause_GetEnabledEdges g' c = []"
  by (auto simp: shrinks_def Clause_Dissable_def Clause_GetEnabledEdges_def edge_on_def filter_empty_conv)

lemma Edge_Dissable_no_edge:
  "shrinks (Edge_Dissable g e) g' \<Longrightarrow> e \<notin> set (Clause_GetEnabledEdges g' c)"
  by (auto simp: shrinks_def Edge_Dissable_def Clause_GetEnabledEdges_def edge_on_def)

lemma clean_edges_unassigned:
  "e \<in> set (Clause_GetEnabledEdges (clean_edges g c es) c) \<Longrightarrow> e \<in> set es
     \<Longrightarrow> \<not> v_assigned (varStore g (e_variable (edgeStore g e)))"
proof (induction es arbitrary: g)
  case Nil
  then show ?case by simp
next
  case (Cons x es)
  let ?vx = "e_variable (edgeStore g x)"
  show ?case
  proof (cases "v_assigned (varStore g ?vx)")
    case False
    then have "clean_edges g c (x # es) = clean_edges g c es" by simp
    then show ?thesis using Cons False by auto
  next
    case True
    show ?thesis
    proof (cases "e_type (edgeStore g x) = v_value (varStore g ?vx)")
      case True
      then have "clean_edges g c (x # es) = Clause_Dissable g c"
        using \<open>v_assigned (varStore g ?vx)\<close> by simp
      then show ?thesis
        using Cons.prems(1) Clause_Dissable_no_edges[OF shrinks_refl, of g c] by simp
    next
      case False
      let ?g1 = "Edge_Dissable g x"
      have eq: "clean_edges g c (x # es) = clean_edges ?g1 c es"
        using True False by simp
      have "e \<noteq> x"
        using Cons.prems(1) eq Edge_Dissable_no_edge[OF shrinks_clean_edges[of ?g1 c es], of c] by auto
      then have "e \<in> set es" using Cons.prems(2) by simp
      then have "\<not> v_assigned (varStore ?g1 (e_variable (edgeStore ?g1 e)))"
        using Cons.IH[of ?g1] Cons.prems(1) eq by simp
      then show ?thesis using \<open>e \<noteq> x\<close> by (simp add: Edge_Dissable_def)
    qed
  qed
qed

lemma clean_clauses_unassigned:
  "clean_clauses g cs = (True, g') \<Longrightarrow> c \<in> set cs \<Longrightarrow> e \<in> set (Clause_GetEnabledEdges g' c)
     \<Longrightarrow> \<not> v_assigned (varStore g' (e_variable (edgeStore g' e)))"
proof (induction cs arbitrary: g)
  case Nil
  then show ?case by simp
next
  case (Cons c' cs)
  let ?g1 = "clean_edges g c' (Clause_GetEnabledEdges g c')"
  have rest: "clean_clauses ?g1 cs = (True, g')"
    using Cons.prems(1) by (auto simp: Let_def split: if_splits)
  have s1: "shrinks g ?g1" by (rule shrinks_clean_edges)
  have s2: "shrinks ?g1 g'" using rest by (rule shrinks_clean_clauses)
  show ?case
  proof (cases "c \<in> set cs")
    case True
    then show ?thesis using Cons.IH rest Cons.prems(3) by blast
  next
    case False
    then have c: "c = c'" using Cons.prems(2) by simp
    have e1: "e \<in> set (Clause_GetEnabledEdges ?g1 c')"
      using shrinks_Clause_edges[OF s2] Cons.prems(3) c by simp
    then have "e \<in> set (Clause_GetEnabledEdges g c')"
      using shrinks_Clause_edges[OF s1] by simp
    then have "\<not> v_assigned (varStore g (e_variable (edgeStore g e)))"
      using clean_edges_unassigned e1 by blast
    then show ?thesis
      using shrinks_trans[OF s1 s2] by (simp add: shrinks_def)
  qed
qed

lemma UP_pass_decreases:
  assumes "unit_clauses g \<noteq> []" and "UP_pass g = Inr (True, g')"
  shows "length (GetEnabledEdges g') < length (GetEnabledEdges g)"
proof -
  obtain g1 where au: "assign_units g (unit_clauses g) = Inr (True, g1)"
    and cc: "clean_clauses g1 (GetEnabledClauses g1) = (True, g')"
    using assms(2) by (auto simp: UP_pass_def split: sum.splits if_splits)
  have a: "assigns g g1" using au by (rule assigns_assign_units)
  have s: "shrinks g1 g'" using cc by (rule shrinks_clean_clauses)
  obtain c where c: "c \<in> set (unit_clauses g)"
    using assms(1) by (cases "unit_clauses g") auto
  then have cen: "c \<in> set (GetEnabledClauses g)" and len: "length (Clause_GetEnabledEdges g c) = 1"
    by (auto simp: unit_clauses_def)
  then obtain e where ce: "Clause_GetEnabledEdges g c = [e]"
    by (cases "Clause_GetEnabledEdges g c") auto
  have sat: "edge_sat g1 e" using assign_units_sat[OF au c ce] .
  have ein: "e \<in> set (edges g)" and ecl: "e_clause (edgeStore g e) = c" and eon: "edge_on g e"
  proof -
    have "e \<in> set (Clause_GetEnabledEdges g c)" using ce by simp
    then show "e \<in> set (edges g)" and "e_clause (edgeStore g e) = c" and "edge_on g e"
      by (simp_all add: Clause_GetEnabledEdges_def)
  qed
  have "e \<notin> set (Clause_GetEnabledEdges g' c)"
  proof
    assume "e \<in> set (Clause_GetEnabledEdges g' c)"
    then have "\<not> v_assigned (varStore g' (e_variable (edgeStore g' e)))"
      using clean_clauses_unassigned[OF cc] cen assigns_views(3)[OF a] by simp
    then show False using sat s by (simp add: shrinks_def edge_sat_def)
  qed
  then have off: "\<not> edge_on g' e"
    using ein ecl a s by (simp add: Clause_GetEnabledEdges_def shrinks_def assigns_def)
  have mono: "\<And>x. edge_on g' x \<Longrightarrow> edge_on g x"
    using shrinks_edge_on[OF s] assigns_views(1)[OF a] by simp
  have "edges g' = edges g" using a s by (simp add: shrinks_def assigns_def)
  then show ?thesis
    unfolding GetEnabledEdges_def
    using filter_length_strict[of "edges g" "edge_on g'" "edge_on g" e] mono ein eon off by simp
qed

termination UnitPropagation
proof (relation "measure (\<lambda>g. length (GetEnabledEdges g))")
  show "wf (measure (\<lambda>g. length (GetEnabledEdges g)))" by simp
next
  fix g :: FactorGraph and r :: "bool \<times> FactorGraph" and ok :: bool and g' :: FactorGraph
  assume "length (unit_clauses g) \<noteq> 0" and "UP_pass g = Inr r" and "(ok, g') = r" and "\<not> \<not> ok"
  then have "unit_clauses g \<noteq> []" and "UP_pass g = Inr (True, g')" by auto
  then show "(g', g) \<in> measure (\<lambda>g. length (GetEnabledEdges g))"
    using UP_pass_decreases by simp
qed

declare UnitPropagation.simps [simp del]

lemma UnitPropagation_no_units:
  "unit_clauses g = [] \<Longrightarrow> UnitPropagation g = Inr (True, g)"
  using UnitPropagation.simps[of g] by simp

lemma UnitPropagation_pass:
  "unit_clauses g \<noteq> [] \<Longrightarrow>
     UnitPropagation g =
       (case UP_pass g of
          Inl err \<Rightarrow> Inl err
        | Inr (ok, g') \<Rightarrow> if \<not> ok then Inr (False, g') else UnitPropagation g')"
  using UnitPropagation.simps[of g] by simp

lemma assigns_unassigned:
  "assigns g g' \<Longrightarrow> length (GetUnassignedVariables g') \<le> length (GetUnassignedVariables g)"
  unfolding GetUnassignedVariables_def assigns_def
  by (auto intro!: filter_length_mono)

lemma UP_pass_unassigned:
  assumes "UP_pass g = Inr (ok, g')"
  shows "length (GetUnassignedVariables g') \<le> length (GetUnassignedVariables g)"
proof -
  have "\<exists>g1 ok1. assign_units g (unit_clauses g) = Inr (ok1, g1) \<and> varStore g' = varStore g1
          \<and> variables g' = variables g1"
    using assms shrinks_clean_clauses
    by (auto simp: UP_pass_def shrinks_def split: sum.splits if_splits prod.splits)
  then obtain g1 ok1 where au: "assign_units g (unit_clauses g) = Inr (ok1, g1)"
    and eq: "varStore g' = varStore g1" "variables g' = variables g1" by blast
  have "length (GetUnassignedVariables g1) \<le> length (GetUnassignedVariables g)"
    using assigns_unassigned assigns_assign_units au by blast
  then show ?thesis using eq by (simp add: GetUnassignedVariables_def)
qed

lemma UP_passes_enough:
  "length (GetEnabledEdges g) < n \<Longrightarrow> UP_passes n g = Some (UnitPropagation g)"
proof (induction n arbitrary: g)
  case 0
  then show ?case by simp
next
  case (Suc n)
  show ?case
  proof (cases "unit_clauses g = []")
    case True
    then show ?thesis by (simp add: UnitPropagation_no_units)
  next
    case False
    show ?thesis
    proof (cases "UP_pass g")
      case (Inl err)
      then show ?thesis using False by (simp add: UnitPropagation_pass)
    next
      case (Inr r)
      obtain ok g' where r: "r = (ok, g')" by (cases r)
      show ?thesis
      proof (cases ok)
        case False
        then show ?thesis using \<open>unit_clauses g \<noteq> []\<close> Inr r by (simp add: UnitPropagation_pass)
      next
        case True
        then have "length (GetEnabledEdges g') < length (GetEnabledEdges g)"
          using UP_pass_decreases False Inr r by simp
        then have "UP_passes n g' = Some (UnitPropagation g')"
          using Suc by simp
        then show ?thesis using \<open>unit_clauses g \<noteq> []\<close> Inr r True by (simp add: UnitPropagation_pass)
      qed
    qed
  qed
qed

section \<open>Survey propagation (lemmas)\<close>

termination sp_loop
  by (relation "measure (\<lambda>(R, cfg, i, s, totalIt). SP_MAX_ITERATIONS cfg - i)") auto

declare sp_loop.simps [simp del]

lemma sp_loop_continue:
  "i < SP_MAX_ITERATIONS cfg \<Longrightarrow> \<not> snd (snd (snd s))
     \<Longrightarrow> sp_loop R cfg i s totalIt = sp_loop R cfg (i + 1) (sp_step R cfg s) (totalIt + 1)"
  using sp_loop.simps[of R cfg i s totalIt] by simp

lemma sp_loop_stop:
  "\<not> (i < SP_MAX_ITERATIONS cfg \<and> \<not> snd (snd (snd s)))
     \<Longrightarrow> sp_loop R cfg i s totalIt =
        (\<lparr>converged = snd (snd (snd s)), iterations = totalIt\<rparr>, fst (snd s), fst (snd (snd s)))"
  using sp_loop.simps[of R cfg i s totalIt] by auto

section \<open>The update keeps the surveys in the unit interval\<close>

lemma unit_range_iff: "unit_range x \<longleftrightarrow> (\<exists>a. x = Fin a \<and> 0 \<le> a \<and> a \<le> 1)"
  by (cases x) auto

lemma unit_range_one_minus: "unit_range x \<Longrightarrow> unit_range (dsub (Fin 1) x)"
  by (auto simp: unit_range_iff dsub_def)

lemma unit_range_dmul: "unit_range x \<Longrightarrow> unit_range y \<Longrightarrow> unit_range (dmul x y)"
  by (auto simp: unit_range_iff mult_le_one)

lemma products_range:
  "unit_range Pu \<Longrightarrow> unit_range Ps \<Longrightarrow> unit_range P0
     \<Longrightarrow> (\<And>b. b \<in> set bs \<Longrightarrow> b \<noteq> aj \<Longrightarrow> unit_range (e_survey (edgeStore g b)))
     \<Longrightarrow> products g aj bs (Pu, Ps, P0) = (Pu', Ps', P0')
     \<Longrightarrow> unit_range Pu' \<and> unit_range Ps' \<and> unit_range P0'"
proof (induction bs arbitrary: Pu Ps P0)
  case Nil
  then show ?case by simp
next
  case (Cons b bs)
  show ?case
  proof (cases "b = aj")
    case True
    then show ?thesis using Cons by simp
  next
    case False
    have sb: "unit_range (dsub (Fin 1) (e_survey (edgeStore g b)))"
      using Cons.prems(4)[of b] False by (simp add: unit_range_one_minus)
    let ?Pu = "if e_type (edgeStore g b) \<noteq> e_type (edgeStore g aj)
         then dmul Pu (dsub (Fin 1) (e_survey (edgeStore g b))) else Pu"
    let ?Ps = "if e_type (edgeStore g b) = e_type (edgeStore g aj)
         then dmul Ps (dsub (Fin 1) (e_survey (edgeStore g b))) else Ps"
    let ?P0 = "dmul P0 (dsub (Fin 1) (e_survey (edgeStore g b)))"
    have "products g aj bs (?Pu, ?Ps, ?P0) = (Pu', Ps', P0')"
      using Cons.prems(5) False by simp
    moreover have "unit_range ?Pu" "unit_range ?Ps" "unit_range ?P0"
      using Cons.prems(1-3) sb by (simp_all add: unit_range_dmul)
    ultimately show ?thesis
      using Cons.IH[of ?Pu ?Ps ?P0] Cons.prems(4) by simp
  qed
qed

lemma quotient_range:
  assumes "unit_range Pu" "unit_range Ps" "unit_range P0"
  shows "isnan (ddiv (dmul (dsub (Fin 1) Pu) Ps)
                  (dadd (dadd (dmul (dsub (Fin 1) Pu) Ps) (dmul (dsub (Fin 1) Ps) Pu)) P0))
       \<or> unit_range (ddiv (dmul (dsub (Fin 1) Pu) Ps)
                  (dadd (dadd (dmul (dsub (Fin 1) Pu) Ps) (dmul (dsub (Fin 1) Ps) Pu)) P0))"
proof -
  obtain a b c where e: "Pu = Fin a" "Ps = Fin b" "P0 = Fin c"
    and r: "0 \<le> a" "a \<le> 1" "0 \<le> b" "b \<le> 1" "0 \<le> c" "c \<le> 1"
    using assms by (auto simp: unit_range_iff)
  let ?n = "(1 - a) * b" and ?m = "(1 - b) * a"
  have n: "0 \<le> ?n" and m: "0 \<le> ?m" using r by simp_all
  show ?thesis
  proof (cases "?n + ?m + c = 0")
    case True
    then have "?n = 0" using n m r(5) by linarith
    then show ?thesis using True e by (simp add: dsub_def)
  next
    case False
    have "0 < ?n + ?m + c" using False n m r(5) by linarith
    then have "0 \<le> ?n / (?n + ?m + c)" "?n / (?n + ?m + c) \<le> 1"
      using n m r(5) by (simp_all add: divide_le_eq)
    then show ?thesis using False e by (simp add: dsub_def)
  qed
qed

lemma Variable_edges_enabled:
  "b \<in> set (Variable_GetEnabledEdges g v) \<Longrightarrow> b \<in> set (GetEnabledEdges g)"
  by (simp add: Variable_GetEnabledEdges_def GetEnabledEdges_def)

lemma Clause_edges_enabled:
  "b \<in> set (Clause_GetEnabledEdges g c) \<Longrightarrow> b \<in> set (GetEnabledEdges g)"
  by (simp add: Clause_GetEnabledEdges_def GetEnabledEdges_def)

lemma ratio_range:
  assumes "\<And>b. b \<in> set (Variable_GetEnabledEdges g (e_variable (edgeStore g aj))) \<Longrightarrow> b \<noteq> aj
             \<Longrightarrow> unit_range (e_survey (edgeStore g b))"
  shows "isnan (ratio g aj) \<or> unit_range (ratio g aj)"
proof -
  obtain Pu Ps P0 where p: "products g aj (Variable_GetEnabledEdges g (e_variable (edgeStore g aj)))
             (Fin 1, Fin 1, Fin 1) = (Pu, Ps, P0)"
    by (metis prod_cases3)
  have "unit_range Pu \<and> unit_range Ps \<and> unit_range P0"
    using products_range[OF _ _ _ _ p] assms by simp
  then show ?thesis
    using quotient_range[of Pu Ps P0] p by (simp add: ratio_def Let_def)
qed

lemma survey_loop_range:
  "(\<And>aj. aj \<in> set ajs \<Longrightarrow> aj \<noteq> ai \<Longrightarrow> isnan (ratio g aj) \<or> unit_range (ratio g aj))
     \<Longrightarrow> unit_range Sai \<Longrightarrow> unit_range (survey_loop g ai ajs Sai)"
proof (induction ajs arbitrary: Sai)
  case Nil
  then show ?case by simp
next
  case (Cons aj ajs)
  show ?case
  proof (cases "aj = ai \<or> isnan (ratio g aj)")
    case True
    then show ?thesis using Cons by auto
  next
    case False
    then have "unit_range (ratio g aj)" using Cons.prems(1)[of aj] by auto
    then have "unit_range (dmul Sai (ratio g aj))" using Cons.prems(2) unit_range_dmul by blast
    then show ?thesis using Cons False by simp
  qed
qed

lemma survey_loop_nan:
  "aj \<in> set ajs \<Longrightarrow> aj \<noteq> ai \<Longrightarrow> isnan (ratio g aj) \<Longrightarrow> survey_loop g ai ajs Sai = Fin 0"
  by (induction ajs arbitrary: Sai) auto

lemma set_survey_edge_on: "edge_on (set_survey g e x) = edge_on g"
  by (auto simp: set_survey_def edge_on_def fun_eq_iff)

lemma set_survey_views:
  "GetEnabledEdges (set_survey g e x) = GetEnabledEdges g"
  "Clause_GetEnabledEdges (set_survey g e x) = Clause_GetEnabledEdges g"
  "Variable_GetEnabledEdges (set_survey g e x) = Variable_GetEnabledEdges g"
  "GetEnabledClauses (set_survey g e x) = GetEnabledClauses g"
  "GetUnassignedVariables (set_survey g e x) = GetUnassignedVariables g"
  unfolding GetEnabledEdges_def Clause_GetEnabledEdges_def Variable_GetEnabledEdges_def
    GetEnabledClauses_def GetUnassignedVariables_def set_survey_edge_on
  by (auto simp: set_survey_def intro!: filter_cong ext)

lemma surveys_in_range_set_survey:
  "surveys_in_range g \<Longrightarrow> unit_range x \<Longrightarrow> surveys_in_range (set_survey g e x)"
  by (auto simp: surveys_in_range_def set_survey_views list_all_iff) (auto simp: set_survey_def)

lemma incident_surveys_range:
  assumes "list_all unit_range (incident_surveys g ai)"
  shows "unit_range (e_survey (edgeStore (UpdateSurvey g ai) ai))"
proof -
  let ?ajs = "Clause_GetEnabledEdges g (e_clause (edgeStore g ai))"
  have "\<And>aj b. aj \<in> set ?ajs \<Longrightarrow> aj \<noteq> ai
          \<Longrightarrow> b \<in> set (Variable_GetEnabledEdges g (e_variable (edgeStore g aj))) \<Longrightarrow> b \<noteq> aj
          \<Longrightarrow> unit_range (e_survey (edgeStore g b))"
    using assms by (auto simp: incident_surveys_def list_all_iff)
  then have "\<And>aj. aj \<in> set ?ajs \<Longrightarrow> aj \<noteq> ai \<Longrightarrow> isnan (ratio g aj) \<or> unit_range (ratio g aj)"
    using ratio_range by blast
  then have "unit_range (survey_loop g ai ?ajs (Fin 1))"
    using survey_loop_range[of ?ajs ai g "Fin 1"] by simp
  then show ?thesis
    by (simp add: UpdateSurvey_def set_survey_def)
qed

lemma surveys_in_range_incident:
  "surveys_in_range g \<Longrightarrow> list_all unit_range (incident_surveys g ai)"
  using Variable_edges_enabled
  by (auto simp: surveys_in_range_def incident_surveys_def list_all_iff)

lemma UpdateSurvey_range:
  assumes "surveys_in_range g"
  shows "unit_range (e_survey (edgeStore (UpdateSurvey g ai) ai))"
    and "surveys_in_range (UpdateSurvey g ai)"
proof -
  show u: "unit_range (e_survey (edgeStore (UpdateSurvey g ai) ai))"
    using incident_surveys_range surveys_in_range_incident assms by blast
  then have "unit_range (survey_loop g ai (Clause_GetEnabledEdges g (e_clause (edgeStore g ai))) (Fin 1))"
    by (simp add: UpdateSurvey_def set_survey_def)
  then show "surveys_in_range (UpdateSurvey g ai)"
    unfolding UpdateSurvey_def using surveys_in_range_set_survey[OF assms] by simp
qed

lemma sweep_range:
  "surveys_in_range g \<Longrightarrow> surveys_in_range (snd (sweep eps g es c))"
  by (induction es arbitrary: g c) (simp_all add: UpdateSurvey_range)

lemma init_surveys_spec:
  "init_surveys R g rng es = (g', rng') \<Longrightarrow> (\<And>r. unit_range (fst (getRandomReal01 R r)))
     \<Longrightarrow> GetEnabledEdges g' = GetEnabledEdges g \<and>
         (\<forall>e. (e \<in> set es \<longrightarrow> unit_range (e_survey (edgeStore g' e))) \<and>
              (e \<notin> set es \<longrightarrow> e_survey (edgeStore g' e) = e_survey (edgeStore g e)))"
proof (induction es arbitrary: g rng)
  case Nil
  then show ?case by simp
next
  case (Cons x es)
  obtain v r1 where d: "getRandomReal01 R rng = (v, r1)" by (cases "getRandomReal01 R rng")
  then have rest: "init_surveys R (set_survey g x v) r1 es = (g', rng')"
    using Cons.prems(1) by simp
  have v: "unit_range v" using Cons.prems(2)[of rng] d by simp
  have ih: "GetEnabledEdges g' = GetEnabledEdges (set_survey g x v) \<and>
         (\<forall>e. (e \<in> set es \<longrightarrow> unit_range (e_survey (edgeStore g' e))) \<and>
              (e \<notin> set es \<longrightarrow> e_survey (edgeStore g' e) = e_survey (edgeStore (set_survey g x v) e)))"
    using Cons.IH[OF rest] Cons.prems(2) by blast
  have x: "unit_range (e_survey (edgeStore g' x))"
  proof (cases "x \<in> set es")
    case True
    then show ?thesis using ih by blast
  next
    case False
    then have "e_survey (edgeStore g' x) = v" using ih by (simp add: set_survey_def)
    then show ?thesis using v by simp
  qed
  have o: "\<And>e. e \<notin> set (x # es) \<Longrightarrow> e_survey (edgeStore g' e) = e_survey (edgeStore g e)"
    using ih by (simp add: set_survey_def)
  show ?case
    using ih x o by (auto simp: set_survey_views)
qed

lemma init_surveys_range:
  assumes "init_surveys R g rng (GetEnabledEdges g) = (g', rng')"
    and "\<And>r. unit_range (fst (getRandomReal01 R r))"
  shows "surveys_in_range g'"
  using init_surveys_spec[OF assms] by (simp add: surveys_in_range_def list_all_iff)

lemma sp_step_range:
  "surveys_in_range (fst (snd s)) \<Longrightarrow> surveys_in_range (fst (snd (sp_step R cfg s)))"
proof -
  assume a: "surveys_in_range (fst (snd s))"
  obtain es g rng c where s: "s = (es, g, rng, c)" by (metis prod_cases4)
  obtain es' rng' where sh: "shuffle R es rng = (es', rng')" by (cases "shuffle R es rng")
  have "fst (snd (sp_step R cfg s)) = snd (sweep (SP_EPSILON cfg) g es' True)"
    using s sh by (simp add: sp_step_def split: prod.splits)
  then show ?thesis using sweep_range[of g] a s by simp
qed

lemma sp_loop_range:
  "surveys_in_range (fst (snd s)) \<Longrightarrow> surveys_in_range (fst (snd (sp_loop R cfg i s totalIt)))"
proof (induction R cfg i s totalIt rule: sp_loop.induct)
  case (1 R cfg i s totalIt)
  show ?case
  proof (cases "i < SP_MAX_ITERATIONS cfg \<and> \<not> snd (snd (snd s))")
    case True
    then show ?thesis
      using 1 sp_step_range[of s R cfg] by (subst sp_loop.simps) simp
  next
    case False
    then show ?thesis using 1 by (subst sp_loop.simps) auto
  qed
qed

lemma sp_sweeps_Suc: "sp_sweeps R cfg (Suc k) s = sp_sweeps R cfg k (sp_step R cfg s)"
  by (simp add: sp_sweeps_def funpow_swap1)

lemma sp_loop_sweeps:
  "\<exists>j. (\<forall>j'<j. i + j' < SP_MAX_ITERATIONS cfg \<and> \<not> snd (snd (snd (sp_sweeps R cfg j' s)))) \<and>
       (SP_MAX_ITERATIONS cfg \<le> i + j \<or> snd (snd (snd (sp_sweeps R cfg j s)))) \<and>
       sp_loop R cfg i s totalIt =
         (\<lparr>converged = snd (snd (snd (sp_sweeps R cfg j s))), iterations = totalIt + j\<rparr>,
          fst (snd (sp_sweeps R cfg j s)), fst (snd (snd (sp_sweeps R cfg j s))))"
proof (induction R cfg i s totalIt rule: sp_loop.induct)
  case (1 R cfg i s totalIt)
  show ?case
  proof (cases "i < SP_MAX_ITERATIONS cfg \<and> \<not> snd (snd (snd s))")
    case False
    have "sp_loop R cfg i s totalIt =
        (\<lparr>converged = snd (snd (snd s)), iterations = totalIt\<rparr>, fst (snd s), fst (snd (snd s)))"
      using False by (subst sp_loop.simps) auto
    then show ?thesis using False
      by (intro exI[of _ 0]) (auto simp: sp_sweeps_def)
  next
    case True
    then obtain j where
      a: "\<forall>j'<j. i + 1 + j' < SP_MAX_ITERATIONS cfg \<and>
             \<not> snd (snd (snd (sp_sweeps R cfg j' (sp_step R cfg s))))"
      and b: "SP_MAX_ITERATIONS cfg \<le> i + 1 + j \<or> snd (snd (snd (sp_sweeps R cfg j (sp_step R cfg s))))"
      and c: "sp_loop R cfg (i + 1) (sp_step R cfg s) (totalIt + 1) =
         (\<lparr>converged = snd (snd (snd (sp_sweeps R cfg j (sp_step R cfg s)))), iterations = totalIt + 1 + j\<rparr>,
          fst (snd (sp_sweeps R cfg j (sp_step R cfg s))), fst (snd (snd (sp_sweeps R cfg j (sp_step R cfg s)))))"
      using 1 by blast
    have l: "sp_loop R cfg i s totalIt = sp_loop R cfg (i + 1) (sp_step R cfg s) (totalIt + 1)"
      using True by (subst sp_loop.simps) simp
    have "\<forall>j'<Suc j. i + j' < SP_MAX_ITERATIONS cfg \<and> \<not> snd (snd (snd (sp_sweeps R cfg j' s)))"
    proof (intro allI impI)
      fix j' assume "j' < Suc j"
      show "i + j' < SP_MAX_ITERATIONS cfg \<and> \<not> snd (snd (snd (sp_sweeps R cfg j' s)))"
      proof (cases j')
        case 0
        then show ?thesis using True by (simp add: sp_sweeps_def)
      next
        case (Suc n)
        then show ?thesis using a \<open>j' < Suc j\<close> by (simp add: sp_sweeps_Suc)
      qed
    qed
    then show ?thesis
      using b c l by (intro exI[of _ "Suc j"]) (simp add: sp_sweeps_Suc)
  qed
qed

lemma sweep_changes_flag:
  "fst (sweep eps g es c) = (c \<and> list_all (\<lambda>b. b) (sweep_changes eps g es))"
  by (induction es arbitrary: g c) auto

lemma SurveyPropagation_start:
  "SurveyPropagation R cfg g rng = sp_loop R cfg 0 (sp_start R g rng) 0"
  by (simp add: SurveyPropagation_def sp_start_def split: prod.splits)

lemma sp_start_flag: "\<not> sweep_flag R cfg (sp_start R g rng) 0"
  by (simp add: sweep_flag_def sp_sweeps_def sp_start_def split: prod.splits)

section \<open>Walksat writes variables only\<close>

lemma only_values_refl: "only_values g g"
  by (simp add: only_values_def)

lemma only_values_trans: "only_values g g1 \<Longrightarrow> only_values g1 g2 \<Longrightarrow> only_values g g2"
  by (simp add: only_values_def)

lemma only_values_AssignValue: "only_values g (AssignValue g v b)"
  by (simp add: only_values_def AssignValue_def)

lemma only_values_flip: "only_values g (flip g v)"
  by (simp add: flip_def only_values_AssignValue)

lemma only_values_assign_random: "only_values g (fst (assign_random R g rng vs))"
proof (induction vs arbitrary: g rng)
  case Nil
  show ?case by (simp add: only_values_refl)
next
  case (Cons v vs)
  obtain b rng' where d: "getRandomBool R rng = (b, rng')" by (cases "getRandomBool R rng")
  show ?case
    using only_values_trans[OF only_values_AssignValue[of g v b] Cons[of "AssignValue g v b" rng']] d
    by simp
qed

lemma only_values_breakcount_loop:
  "only_values g (fst (breakcount_loop g sats es lv lc))"
proof (induction es arbitrary: g lv lc)
  case Nil
  show ?case by (simp add: only_values_refl)
next
  case (Cons e es)
  let ?v = "e_variable (edgeStore g e)"
  let ?g2 = "flip (flip g ?v) ?v"
  have f: "only_values g ?g2"
    using only_values_trans[OF only_values_flip only_values_flip] .
  show ?case
    using f only_values_trans[OF f Cons[of ?g2]]
    by (simp add: Let_def)
qed

lemma only_values_flip_lowest: "flip_lowest g lv = Inr g' \<Longrightarrow> only_values g g'"
  by (auto simp: flip_lowest_def only_values_flip split: option.splits)

lemma only_values_flip_step:
  assumes "flip_step R cfg g rng = Inr (g', rng')"
  shows "only_values g g'"
proof -
  let ?sat = "filter (Clause_IsSAT g) (GetEnabledClauses g)"
  let ?unsat = "filter (\<lambda>c. \<not> Clause_IsSAT g c) (GetEnabledClauses g)"
  obtain c rng1 where re: "random_element R ?unsat rng = Inr (c, rng1)"
    using assms by (auto simp: flip_step_def Let_def split: sum.splits)
  let ?es = "Clause_GetEnabledEdges g c"
  obtain g1 lv lc where bl: "breakcount_loop g ?sat ?es None (length ?sat + 1) = (g1, lv, lc)"
    by (metis prod_cases3)
  have o1: "only_values g g1"
    using only_values_breakcount_loop[of g ?sat ?es None "length ?sat + 1"] bl by simp
  have "(\<exists>g2. flip_lowest g1 lv = Inr g2 \<and> g' = g2) \<or> (\<exists>v. g' = flip g1 v)"
    using assms re bl
    by (auto simp: flip_step_def Let_def split: sum.splits if_splits prod.splits)
  then have "only_values g1 g'"
    using only_values_flip_lowest only_values_flip by blast
  then show ?thesis using o1 only_values_trans by blast
qed

lemma only_values_flips:
  "flips R cfg n g rng = Inr (b, g', rng') \<Longrightarrow> only_values g g'"
proof (induction n arbitrary: g rng)
  case 0
  then show ?case by (simp add: only_values_refl)
next
  case (Suc n)
  show ?case
  proof (cases "IsSAT g")
    case True
    then show ?thesis using Suc.prems by (simp add: only_values_refl)
  next
    case False
    then obtain g1 rng1 where st: "flip_step R cfg g rng = Inr (g1, rng1)"
      and rest: "flips R cfg n g1 rng1 = Inr (b, g', rng')"
      using Suc.prems by (auto split: sum.splits)
    show ?thesis
      using only_values_trans[OF only_values_flip_step[OF st] Suc.IH[OF rest]] .
  qed
qed

lemma only_values_tries:
  "tries R cfg n g rng = Inr (b, g', rng') \<Longrightarrow> only_values g g'"
proof (induction n arbitrary: g rng)
  case 0
  then show ?case by (simp add: only_values_refl)
next
  case (Suc n)
  obtain g1 rng1 where ts: "try_start R g rng = (g1, rng1)" by (cases "try_start R g rng")
  have o1: "only_values g g1"
    using only_values_assign_random[of g R rng "GetUnassignedVariables g"] ts
    by (simp add: try_start_def)
  obtain found g2 rng2 where fl: "flips R cfg (WS_MAX_FLIPS cfg) g1 rng1 = Inr (found, g2, rng2)"
    using Suc.prems ts by (auto split: sum.splits)
  have o2: "only_values g1 g2" using fl by (rule only_values_flips)
  show ?case
  proof (cases found)
    case True
    then have "g' = g2" using Suc.prems ts fl by simp
    then show ?thesis using o1 o2 only_values_trans by blast
  next
    case False
    then have "tries R cfg n g2 rng2 = Inr (b, g', rng')" using Suc.prems ts fl by simp
    then show ?thesis using Suc.IH o1 o2 only_values_trans by blast
  qed
qed

lemma only_values_views:
  assumes "only_values g g'"
  shows "edge_on g' = edge_on g"
    and "GetEnabledClauses g' = GetEnabledClauses g"
    and "GetEnabledEdges g' = GetEnabledEdges g"
    and "Clause_GetEnabledEdges g' = Clause_GetEnabledEdges g"
    and "Variable_GetEnabledEdges g' = Variable_GetEnabledEdges g"
proof -
  show a: "edge_on g' = edge_on g"
    using assms by (auto simp: only_values_def edge_on_def fun_eq_iff)
  show "GetEnabledClauses g' = GetEnabledClauses g"
    using assms by (simp add: only_values_def GetEnabledClauses_def)
  show "GetEnabledEdges g' = GetEnabledEdges g"
    using assms a by (simp add: only_values_def GetEnabledEdges_def)
  show "Clause_GetEnabledEdges g' = Clause_GetEnabledEdges g"
    using assms a by (auto simp: only_values_def Clause_GetEnabledEdges_def fun_eq_iff)
  show "Variable_GetEnabledEdges g' = Variable_GetEnabledEdges g"
    using assms a by (auto simp: only_values_def Variable_GetEnabledEdges_def fun_eq_iff)
qed

section \<open>Survey inspired decimation (lemmas)\<close>

lemma flips_pos:
  "0 < n \<Longrightarrow> flips R cfg n g rng =
     (if IsSAT g then Inr (True, g, rng)
      else (case flip_step R cfg g rng of
              Inl err \<Rightarrow> Inl err
            | Inr (g', rng') \<Rightarrow> flips R cfg (n - 1) g' rng'))"
  by (cases n) (simp_all split: sum.splits prod.splits)

lemma tries_pos:
  "0 < n \<Longrightarrow> tries R cfg n g rng =
     (case try_start R g rng of
        (g1, rng1) \<Rightarrow>
          (case flips R cfg (WS_MAX_FLIPS cfg) g1 rng1 of
             Inl err \<Rightarrow> Inl err
           | Inr (found, g2, rng2) \<Rightarrow>
               if found then Inr (True, g2, rng2) else tries R cfg (n - 1) g2 rng2))"
  by (cases n) (simp_all split: sum.splits prod.splits)

lemma allTrivial_iff:
  "allTrivial g = list_all (\<lambda>e. e_survey (edgeStore g e) = Fin 0) (GetEnabledEdges g)"
proof -
  have "\<And>x. dne x (Fin 0) = (x \<noteq> Fin 0)"
    by (case_tac x) (auto simp: dne_def)
  then show ?thesis
    by (simp add: allTrivial_def list_all_iff list_ex_iff)
qed

section \<open>Walksat leaves no variable unassigned\<close>

lemma keeps_assigned_refl: "keeps_assigned g g"
  by (simp add: keeps_assigned_def list_all_iff)

lemma keeps_assigned_trans:
  "keeps_assigned g g1 \<Longrightarrow> keeps_assigned g1 g2 \<Longrightarrow> keeps_assigned g g2"
  by (auto simp: keeps_assigned_def list_all_iff)

lemma keeps_assigned_AssignValue: "keeps_assigned g (AssignValue g v b)"
  by (simp add: keeps_assigned_def AssignValue_def list_all_iff)

lemma keeps_assigned_flip: "keeps_assigned g (flip g v)"
  by (simp add: flip_def keeps_assigned_AssignValue)

lemma keeps_assigned_unassigned:
  "keeps_assigned g g' \<Longrightarrow> GetUnassignedVariables g = [] \<Longrightarrow> GetUnassignedVariables g' = []"
  by (auto simp: keeps_assigned_def GetUnassignedVariables_def list_all_iff filter_empty_conv)

lemma assign_random_assigned:
  "assign_random R g rng vs = (g', rng') \<Longrightarrow> variables g' = variables g \<and>
     (\<forall>v. (v \<in> set vs \<or> v_assigned (varStore g v)) \<longrightarrow> v_assigned (varStore g' v))"
proof (induction vs arbitrary: g rng)
  case Nil
  then show ?case by simp
next
  case (Cons x vs)
  obtain b r where d: "getRandomBool R rng = (b, r)" by (cases "getRandomBool R rng")
  then have rest: "assign_random R (AssignValue g x b) r vs = (g', rng')"
    using Cons.prems by simp
  show ?case
    using Cons.IH[OF rest] by (auto simp: AssignValue_def split: if_splits)
qed

lemma try_start_all_assigned:
  assumes "try_start R g rng = (g1, rng1)"
  shows "GetUnassignedVariables g1 = []"
  using assign_random_assigned[OF assms[unfolded try_start_def]]
  by (auto simp: GetUnassignedVariables_def filter_empty_conv)

lemma keeps_assigned_breakcount_loop:
  "keeps_assigned g (fst (breakcount_loop g sats es lv lc))"
proof (induction es arbitrary: g lv lc)
  case Nil
  show ?case by (simp add: keeps_assigned_refl)
next
  case (Cons e es)
  let ?v = "e_variable (edgeStore g e)"
  let ?g2 = "flip (flip g ?v) ?v"
  have f: "keeps_assigned g ?g2"
    using keeps_assigned_trans[OF keeps_assigned_flip keeps_assigned_flip] .
  show ?case
    using f keeps_assigned_trans[OF f Cons[of ?g2]]
    by (simp add: Let_def)
qed

lemma keeps_assigned_flip_step:
  assumes "flip_step R cfg g rng = Inr (g', rng')"
  shows "keeps_assigned g g'"
proof -
  let ?sat = "filter (Clause_IsSAT g) (GetEnabledClauses g)"
  let ?unsat = "filter (\<lambda>c. \<not> Clause_IsSAT g c) (GetEnabledClauses g)"
  obtain c rng1 where re: "random_element R ?unsat rng = Inr (c, rng1)"
    using assms by (auto simp: flip_step_def Let_def split: sum.splits)
  let ?es = "Clause_GetEnabledEdges g c"
  obtain g1 lv lc where bl: "breakcount_loop g ?sat ?es None (length ?sat + 1) = (g1, lv, lc)"
    by (metis prod_cases3)
  have o1: "keeps_assigned g g1"
    using keeps_assigned_breakcount_loop[of g ?sat ?es None "length ?sat + 1"] bl by simp
  have "\<exists>v. g' = flip g1 v"
    using assms re bl
    by (auto simp: flip_step_def flip_lowest_def Let_def
        split: sum.splits if_splits prod.splits option.splits)
  then have "keeps_assigned g1 g'"
    using keeps_assigned_flip by blast
  then show ?thesis using o1 keeps_assigned_trans by blast
qed

lemma keeps_assigned_flips:
  "flips R cfg n g rng = Inr (b, g', rng') \<Longrightarrow> keeps_assigned g g'"
proof (induction n arbitrary: g rng)
  case 0
  then show ?case by (simp add: keeps_assigned_refl)
next
  case (Suc n)
  show ?case
  proof (cases "IsSAT g")
    case True
    then show ?thesis using Suc.prems by (simp add: keeps_assigned_refl)
  next
    case False
    then obtain g1 rng1 where st: "flip_step R cfg g rng = Inr (g1, rng1)"
      and rest: "flips R cfg n g1 rng1 = Inr (b, g', rng')"
      using Suc.prems by (auto split: sum.splits)
    show ?thesis
      using keeps_assigned_trans[OF keeps_assigned_flip_step[OF st] Suc.IH[OF rest]] .
  qed
qed

section \<open>Rounding to the nearest double\<close>

termination expo_up
proof (relation "measure (\<lambda>x. nat \<lfloor>x\<rfloor>)")
  show "wf (measure (\<lambda>x::real. nat \<lfloor>x\<rfloor>))" by simp
next
  fix x :: real
  assume "\<not> x < 2"
  then have "\<lfloor>x / 2\<rfloor> < \<lfloor>x\<rfloor>" and "0 < \<lfloor>x\<rfloor>" by linarith+
  then show "(x / 2, x) \<in> measure (\<lambda>x. nat \<lfloor>x\<rfloor>)" by simp
qed

termination expo_down
proof (relation "measure (\<lambda>x. nat \<lceil>1 / x\<rceil>)")
  show "wf (measure (\<lambda>x::real. nat \<lceil>1 / x\<rceil>))" by simp
next
  fix x :: real
  assume "\<not> (x \<le> 0 \<or> 1 \<le> x)"
  then have x: "0 < x" "x < 1" by simp_all
  then have y: "1 < 1 / x" by simp
  define y where "y = 1 / x"
  have e: "1 / (2 * x) = y / 2" by (simp add: y_def)
  have "1 < y" using y by (simp add: y_def)
  then have c: "2 \<le> \<lceil>y\<rceil>" by linarith
  have c': "2 \<le> real_of_int \<lceil>y\<rceil>" using c by linarith
  have "y \<le> of_int \<lceil>y\<rceil>" by (rule le_of_int_ceiling)
  then have "y / 2 \<le> real_of_int \<lceil>y\<rceil> - 1" using c' by linarith
  then have "y / 2 \<le> of_int (\<lceil>y\<rceil> - 1)" by simp
  then have "\<lceil>y / 2\<rceil> \<le> \<lceil>y\<rceil> - 1" by (rule ceiling_le)
  then have "\<lceil>y / 2\<rceil> < \<lceil>y\<rceil>" and "0 < \<lceil>y\<rceil>" using c by simp_all
  then have "\<lceil>1 / (2 * x)\<rceil> < \<lceil>1 / x\<rceil>" and "0 < \<lceil>1 / x\<rceil>"
    unfolding e unfolding y_def by simp_all
  then show "(2 * x, x) \<in> measure (\<lambda>x. nat \<lceil>1 / x\<rceil>)" by simp
qed

declare expo_up.simps [simp del] expo_down.simps [simp del]

lemma expo_up_le: "1 \<le> x \<Longrightarrow> 2 ^ expo_up x \<le> x"
proof (induction x rule: expo_up.induct)
  case (1 x)
  show ?case
  proof (cases "x < 2")
    case True
    then show ?thesis using 1(2) by (simp add: expo_up.simps[of x])
  next
    case False
    then have "2 ^ expo_up (x / 2) \<le> x / 2" using 1(1) by simp
    then show ?thesis using False by (simp add: expo_up.simps[of x])
  qed
qed

lemma ulp_form:
  assumes "0 < x" "x < 2 ^ 53"
  shows "\<exists>j. ulp x = 1 / 2 ^ j"
proof (cases "1 \<le> x")
  case True
  have "(2::real) ^ expo_up x < 2 ^ 53" using expo_up_le[OF True] assms(2) by linarith
  then have "expo_up x < 53" by (rule power_less_imp_less_exp[rotated]) simp
  then have e: "expo_up x \<le> 52" by simp
  have "(2::real) ^ 52 = 2 ^ (expo_up x + (52 - expo_up x))" using e by simp
  then have s: "(2::real) ^ 52 = 2 ^ expo_up x * 2 ^ (52 - expo_up x)" by (simp only: power_add)
  have "ulp x = 2 ^ expo_up x / 2 ^ 52" using True by (simp only: ulp_def if_True)
  also have "\<dots> = 2 ^ expo_up x / (2 ^ expo_up x * 2 ^ (52 - expo_up x))" by (simp only: s)
  also have "\<dots> = 1 / 2 ^ (52 - expo_up x)" by simp
  finally show ?thesis by blast
next
  case False
  then show ?thesis by (auto simp: ulp_def)
qed

lemma round_even_bounds: "\<lfloor>y\<rfloor> \<le> round_even y \<and> round_even y \<le> \<lceil>y\<rceil>"
  unfolding round_even_def Let_def by (auto; linarith)

lemma round_even_int: "round_even (of_int m) = m"
  by (simp add: round_even_def)

lemma round_double_between:
  fixes m :: nat
  assumes "0 \<le> x" "x \<le> real m" "m < 2 ^ 53"
  shows "0 \<le> round_double x \<and> round_double x \<le> real m"
proof (cases "x = 0")
  case True
  then show ?thesis by (simp add: round_double_def)
next
  case False
  then have p: "0 < x" using assms(1) by simp
  have "real m < real (2 ^ 53)" using assms(3) by (simp only: of_nat_less_iff)
  then have "real m < 2 ^ 53" by simp
  then have "x < 2 ^ 53" using assms(2) by linarith
  then obtain j where u: "ulp x = 1 / 2 ^ j" using ulp_form[OF p] by blast
  have q: "x / ulp x = x * 2 ^ j" using u by simp
  have le: "x * 2 ^ j \<le> real_of_int (int (m * 2 ^ j))" using assms(2) by simp
  have "round_even (x * 2 ^ j) \<le> \<lceil>x * 2 ^ j\<rceil>" using round_even_bounds by blast
  also have "\<dots> \<le> int (m * 2 ^ j)" using le by (simp only: ceiling_le_iff)
  finally have up: "round_even (x * 2 ^ j) \<le> int (m * 2 ^ j)" .
  have "0 \<le> \<lfloor>x * 2 ^ j\<rfloor>" using p by simp
  then have lo: "0 \<le> round_even (x * 2 ^ j)" using round_even_bounds[of "x * 2 ^ j"] by linarith
  have r: "round_double x = of_int (round_even (x * 2 ^ j)) / 2 ^ j"
    using p u q by (simp add: round_double_def)
  have "real_of_int (round_even (x * 2 ^ j)) \<le> real_of_int (int (m * 2 ^ j))"
    using up by (simp only: of_int_le_iff)
  then have "real_of_int (round_even (x * 2 ^ j)) \<le> real m * 2 ^ j" by simp
  then have "real_of_int (round_even (x * 2 ^ j)) / 2 ^ j \<le> real m"
    by (simp add: divide_le_eq)
  then show ?thesis using lo r by simp
qed

lemma round_double_nat:
  fixes m :: nat
  assumes "m < 2 ^ 53"
  shows "round_double (real m) = real m"
proof (cases "m = 0")
  case True
  then show ?thesis by (simp add: round_double_def)
next
  case False
  then have p: "0 < real m" by simp
  have "real m < real (2 ^ 53)" using assms by (simp only: of_nat_less_iff)
  then have "real m < 2 ^ 53" by simp
  then obtain j where u: "ulp (real m) = 1 / 2 ^ j" using ulp_form[OF p] by blast
  have "real m / ulp (real m) = of_int (int (m * 2 ^ j))" using u by simp
  then have "round_even (real m / ulp (real m)) = int (m * 2 ^ j)"
    by (simp only: round_even_int)
  then show ?thesis using p u by (simp add: round_double_def)
qed

lemma assignFraction_value:
  assumes "1 \<le> n" "n \<le> 2147483647" "0 \<le> f" "f \<le> 1"
  shows "assignFraction n (Fin f) = Inr (max 1 \<lfloor>round_double (real n * f)\<rfloor>)"
    and "nat (max 1 \<lfloor>round_double (real n * f)\<rfloor>) \<le> n"
    and "1 \<le> nat (max 1 \<lfloor>round_double (real n * f)\<rfloor>)"
proof -
  have n53: "n < 2 ^ 53" using assms(2) by simp
  have nf: "0 \<le> real n * f" using assms by simp
  have le: "real n * f \<le> real n" using assms by (simp add: mult_left_le)
  have b: "0 \<le> round_double (real n * f)" "round_double (real n * f) \<le> real n"
    using round_double_between[OF nf le n53] by simp_all
  have rn: "real n \<le> 2147483647" using assms(2) by simp
  have c: "to_double (real n) = Fin (real n)"
    using rn by (simp add: to_double_def round_double_nat[OF n53] Let_def)
  have d: "to_double (real n * f) = Fin (round_double (real n * f))"
    using b rn by (simp add: to_double_def Let_def)
  have up: "\<lfloor>round_double (real n * f)\<rfloor> \<le> int n" using b(2) by linarith
  have lo: "0 \<le> \<lfloor>round_double (real n * f)\<rfloor>" using b(1) by simp
  have lt: "round_double (real n * f) < 2147483648" using b(2) rn by linarith
  show "assignFraction n (Fin f) = Inr (max 1 \<lfloor>round_double (real n * f)\<rfloor>)"
    using b(1) lo lt
    by (auto simp: assignFraction_def dmul_nearest_def c d to_int_def Let_def max_def)
  show "nat (max 1 \<lfloor>round_double (real n * f)\<rfloor>) \<le> n"
    using up assms(1) by (auto simp: max_def)
  have "1 \<le> max 1 \<lfloor>round_double (real n * f)\<rfloor>" by simp
  then show "1 \<le> nat (max 1 \<lfloor>round_double (real n * f)\<rfloor>)" by linarith
qed

text \<open>
  Ten unassigned variables and the double nearest to 0.3: the exact product lies below 3,
  the double product is 3.
\<close>

lemma round_double_ten_tenths:
  "round_double (10 * (5404319552844595 / 18014398509481984)) = 3"
proof -
  have a: "expo_up (27021597764222975 / 9007199254740992) = 1"
    by (simp add: expo_up.simps[of "27021597764222975 / 9007199254740992"]
        expo_up.simps[of "27021597764222975 / 18014398509481984"])
  show ?thesis
    by (simp add: round_double_def ulp_def a round_even_def Let_def)
qed

lemma assignFraction_ten_tenths:
  "assignFraction 10 (Fin (5404319552844595 / 18014398509481984)) = Inr 3 \<and>
   \<lfloor>10 * (5404319552844595 / 18014398509481984 :: real)\<rfloor> = 2"
proof -
  have "assignFraction 10 (Fin (5404319552844595 / 18014398509481984))
      = Inr (max 1 \<lfloor>round_double (real 10 * (5404319552844595 / 18014398509481984))\<rfloor>)"
    by (rule assignFraction_value(1)) simp_all
  then show ?thesis using round_double_ten_tenths by simp
qed

section \<open>The decimation step\<close>

lemma only_bias_refl: "only_bias g g"
  by (simp add: only_bias_def)

lemma only_bias_trans: "only_bias g g1 \<Longrightarrow> only_bias g1 g2 \<Longrightarrow> only_bias g g2"
  by (simp add: only_bias_def)

lemma only_bias_set_evalValue: "only_bias g (set_evalValue g v x)"
  by (simp add: only_bias_def set_evalValue_def)

lemma only_bias_EvaluateVariable: "only_bias g (EvaluateVariable g v)"
  by (simp add: EvaluateVariable_def only_bias_set_evalValue split: prod.splits)

lemma only_bias_evaluate_all: "only_bias g (evaluate_all g vs)"
proof (induction vs arbitrary: g)
  case Nil
  show ?case by (simp add: only_bias_refl)
next
  case (Cons v vs)
  show ?case
    using only_bias_trans[OF only_bias_EvaluateVariable Cons] by simp
qed

lemma only_bias_views:
  assumes "only_bias g g'"
  shows "edge_on g' = edge_on g"
    and "GetEnabledEdges g' = GetEnabledEdges g"
    and "Variable_GetEnabledEdges g' = Variable_GetEnabledEdges g"
    and "GetUnassignedVariables g' = GetUnassignedVariables g"
    and "surveys_in_range g' = surveys_in_range g"
proof -
  show a: "edge_on g' = edge_on g"
    using assms by (auto simp: only_bias_def edge_on_def fun_eq_iff)
  show b: "GetEnabledEdges g' = GetEnabledEdges g"
    using assms a by (simp add: only_bias_def GetEnabledEdges_def)
  show "Variable_GetEnabledEdges g' = Variable_GetEnabledEdges g"
    using assms a by (auto simp: only_bias_def Variable_GetEnabledEdges_def fun_eq_iff)
  show "GetUnassignedVariables g' = GetUnassignedVariables g"
    using assms by (simp add: only_bias_def GetUnassignedVariables_def)
  show "surveys_in_range g' = surveys_in_range g"
    using assms b by (simp add: only_bias_def surveys_in_range_def)
qed

lemma sort_insert_mset: "mset (sort_insert rank g x ys) = add_mset x (mset ys)"
  by (induction ys) auto

lemma foldr_sort_insert_mset: "mset (foldr (sort_insert rank g) xs []) = mset xs"
  by (induction xs) (auto simp: sort_insert_mset)

lemma std_sort_mset: "mset (std_sort ties g xs) = mset xs"
  by (simp add: std_sort_def foldr_sort_insert_mset)


lemma std_sort_perm:
  "set (std_sort ties g xs) = set xs" "length (std_sort ties g xs) = length xs"
  "distinct (std_sort ties g xs) = distinct xs"
  using std_sort_mset[of ties g xs] mset_eq_setD mset_eq_length mset_eq_imp_distinct_iff
  by blast+


lemma dless_asym: "dless a b \<Longrightarrow> \<not> dless b a"
  by (cases a; cases b) auto





text \<open>
  Every order that \<open>std::sort\<close> may leave of a vector without repetitions, that is every
  permutation of it in which no element compares larger than an earlier one, is the result
  of the model for some choice of the library: the rank of an element is its place in that
  order.
\<close>

lemma std_sort_covers:
  assumes d: "distinct xs" and m: "mset vs = mset xs"
    and sv: "sorted_wrt (\<lambda>l r. \<not> larger_bias g r l) vs"
  shows "\<exists>ties. std_sort ties g xs = vs"
proof -
  define idx where "idx x = length (takeWhile (\<lambda>y. y \<noteq> x) vs)" for x
  have dv: "distinct vs" using d m mset_eq_imp_distinct_iff by blast
  have sx: "set vs = set xs" using m mset_eq_setD by blast
  have nth: "\<And>i. i < length vs \<Longrightarrow> idx (vs ! i) = i"
  proof -
    fix i assume i: "i < length vs"
    have "takeWhile (\<lambda>y. y \<noteq> vs ! i) vs = take i vs"
    proof (rule takeWhile_eq_take_P_nth)
      fix j assume "j < i" "j < length vs"
      then show "vs ! j \<noteq> vs ! i" using dv i by (simp add: nth_eq_iff_index_eq)
    next
      show "i < length vs \<Longrightarrow> \<not> vs ! i \<noteq> vs ! i" by simp
    qed
    then show "idx (vs ! i) = i" using i by (simp add: idx_def)
  qed
  have inj: "inj_on idx (set vs)"
  proof (rule inj_onI)
    fix a b assume "a \<in> set vs" "b \<in> set vs" "idx a = idx b"
    then show "a = b" using nth by (metis in_set_conv_nth)
  qed
  have before: "\<And>l r. l \<in> set vs \<Longrightarrow> r \<in> set vs \<Longrightarrow> sorts_before idx g l r = (idx l < idx r)"
  proof -
    fix l r assume "l \<in> set vs" "r \<in> set vs"
    then obtain i j where i: "i < length vs" "vs ! i = l" and j: "j < length vs" "vs ! j = r"
      by (auto simp: in_set_conv_nth)
    have il: "idx l = i" and jr: "idx r = j" using nth i j by auto
    have irr: "\<not> larger_bias g l l" using dless_asym by (auto simp: larger_bias_def)
    show "sorts_before idx g l r = (idx l < idx r)"
    proof (cases "i < j")
      case True
      then have "\<not> larger_bias g r l"
        using sv i j by (auto simp: sorted_wrt_iff_nth_less)
      then show ?thesis using True il jr by (auto simp: sorts_before_def)
    next
      case False
      have "\<not> larger_bias g l r"
      proof (cases "i = j")
        case True
        then show ?thesis using irr i j by simp
      next
        case False
        then have "j < i" using \<open>\<not> i < j\<close> by simp
        then show ?thesis using sv i j by (auto simp: sorted_wrt_iff_nth_less)
      qed
      then show ?thesis using False il jr by (auto simp: sorts_before_def)
    qed
  qed
  have ins: "\<And>x ys. x \<in> set vs \<Longrightarrow> set ys \<subseteq> set vs
      \<Longrightarrow> sort_insert idx g x ys = insort_key idx x ys"
  proof -
    fix x ys show "x \<in> set vs \<Longrightarrow> set ys \<subseteq> set vs
      \<Longrightarrow> sort_insert idx g x ys = insort_key idx x ys"
      by (induction ys) (auto simp: before)
  qed
  have fold: "\<And>ys. set ys \<subseteq> set vs \<Longrightarrow> foldr (sort_insert idx g) ys [] = sort_key idx ys"
  proof -
    fix ys show "set ys \<subseteq> set vs \<Longrightarrow> foldr (sort_insert idx g) ys [] = sort_key idx ys"
    proof (induction ys)
      case Nil
      show ?case by simp
    next
      case (Cons y ys)
      have "set (sort_key idx ys) \<subseteq> set vs" using Cons.prems by simp
      then show ?case using Cons ins[of y "sort_key idx ys"] by (simp add: sort_key_def)
    qed
  qed
  let ?rs = "sort_key idx xs"
  have r: "std_sort (\<lambda>g xs. idx) g xs = ?rs"
    using fold[of xs] sx by (simp add: std_sort_def)
  have "map idx vs = [0..<length vs]"
    using nth by (intro nth_equalityI) simp_all
  then have s1: "sorted (map idx vs)" by simp
  have s2: "sorted (map idx ?rs)" by simp
  have d1: "distinct (map idx vs)" using dv inj by (simp add: distinct_map)
  have d2: "distinct (map idx ?rs)" using d inj sx by (simp add: distinct_map)
  have "set (map idx ?rs) = set (map idx vs)" using sx by simp
  then have "map idx ?rs = map idx vs"
    using sorted_distinct_set_unique[OF s2 d2 s1 d1] by simp
  moreover have "inj_on idx (set ?rs \<union> set vs)" using inj sx by simp
  ultimately have "?rs = vs" using inj_on_map_eq_map by blast
  then show ?thesis using r by blast
qed

lemma bias_products_range:
  "unit_range P0 \<Longrightarrow> unit_range PP \<Longrightarrow> unit_range PN
     \<Longrightarrow> (\<And>a. a \<in> set ais \<Longrightarrow> unit_range (e_survey (edgeStore g a)))
     \<Longrightarrow> bias_products g ais (P0, PP, PN) = (P0', PP', PN')
     \<Longrightarrow> unit_range P0' \<and> unit_range PP' \<and> unit_range PN'"
proof (induction ais arbitrary: P0 PP PN)
  case Nil
  then show ?case by simp
next
  case (Cons a ais)
  have sa: "unit_range (dsub (Fin 1) (e_survey (edgeStore g a)))"
    using Cons.prems(4)[of a] by (simp add: unit_range_one_minus)
  let ?P0 = "dmul P0 (dsub (Fin 1) (e_survey (edgeStore g a)))"
  let ?PP = "if e_type (edgeStore g a)
        then dmul PP (dsub (Fin 1) (e_survey (edgeStore g a))) else PP"
  let ?PN = "if e_type (edgeStore g a)
        then PN else dmul PN (dsub (Fin 1) (e_survey (edgeStore g a)))"
  have "bias_products g ais (?P0, ?PP, ?PN) = (P0', PP', PN')"
    using Cons.prems(5) by simp
  moreover have "unit_range ?P0" "unit_range ?PP" "unit_range ?PN"
    using Cons.prems(1-3) sa by (simp_all add: unit_range_dmul)
  ultimately show ?case
    using Cons.IH[of ?P0 ?PP ?PN] Cons.prems(4) by simp
qed

lemma bias_not_nan:
  assumes "unit_range P0" "unit_range PP" "unit_range PN"
  shows "\<not> isnan (bias P0 PP PN)"
proof -
  obtain a b c where e: "P0 = Fin a" "PP = Fin b" "PN = Fin c"
    and r: "0 \<le> a" "0 \<le> b" "b \<le> 1" "0 \<le> c" "c \<le> 1"
    using assms by (auto simp: unit_range_iff)
  let ?p = "(1 - b) * c" and ?n = "(1 - c) * b"
  have p: "0 \<le> ?p" and n: "0 \<le> ?n" using r by simp_all
  show ?thesis
  proof (cases "?p + ?n + a = 0")
    case True
    then have "?p = 0" "?n = 0" using p n r(1) by linarith+
    then show ?thesis using True unfolding e bias_def Let_def dsub_def by simp
  next
    case False
    then show ?thesis unfolding e bias_def Let_def dsub_def by simp
  qed
qed

lemma EvaluateVariable_not_nan:
  assumes "surveys_in_range g"
  shows "\<not> isnan (v_evalValue (varStore (EvaluateVariable g v) v))"
proof -
  obtain P0 PP PN where p: "bias_products g (Variable_GetEnabledEdges g v) (Fin 1, Fin 1, Fin 1)
      = (P0, PP, PN)"
    by (metis prod_cases3)
  have "\<And>a. a \<in> set (Variable_GetEnabledEdges g v) \<Longrightarrow> unit_range (e_survey (edgeStore g a))"
    using assms Variable_edges_enabled by (auto simp: surveys_in_range_def list_all_iff)
  then have "unit_range P0 \<and> unit_range PP \<and> unit_range PN"
    using bias_products_range[OF _ _ _ _ p] by simp
  then have "\<not> isnan (bias P0 PP PN)"
    using bias_not_nan by blast
  then show ?thesis
    using p by (simp add: EvaluateVariable_def set_evalValue_def)
qed

lemma EvaluateVariable_other:
  "u \<noteq> v \<Longrightarrow> varStore (EvaluateVariable g v) u = varStore g u"
  by (simp add: EvaluateVariable_def set_evalValue_def split: prod.splits)

lemma evaluate_all_not_nan:
  "surveys_in_range g \<Longrightarrow> v \<in> set vs \<or> \<not> isnan (v_evalValue (varStore g v))
     \<Longrightarrow> \<not> isnan (v_evalValue (varStore (evaluate_all g vs) v))"
proof (induction vs arbitrary: g)
  case Nil
  then show ?case by simp
next
  case (Cons x vs)
  have r: "surveys_in_range (EvaluateVariable g x)"
    using only_bias_views(5)[OF only_bias_EvaluateVariable] Cons.prems(1) by simp
  have "v \<in> set vs \<or> \<not> isnan (v_evalValue (varStore (EvaluateVariable g x) v))"
  proof (cases "v = x")
    case True
    then show ?thesis using EvaluateVariable_not_nan[OF Cons.prems(1)] by simp
  next
    case False
    then show ?thesis using Cons.prems(2) EvaluateVariable_other[of v x g] by auto
  qed
  then show ?case using Cons.IH[OF r] by simp
qed

text \<open>
  The state in which line 299 is reached: bias evaluation leaves the unassigned variables
  unassigned and, on surveys of the unit interval, stores no \<open>NaN\<close>.
\<close>

lemma decimation_evaluated:
  assumes "surveys_in_range g" and "us = GetUnassignedVariables g"
    and "g1 = evaluate_all g us"
  shows "GetUnassignedVariables g1 = us"
    and "\<forall>v\<in>set us. \<not> isnan (v_evalValue (varStore g1 v))"
    and "decimation ties g fraction = decimate_step ties g1 us fraction"
proof -
  show "GetUnassignedVariables g1 = us"
    using only_bias_views(4)[OF only_bias_evaluate_all[of g us]] assms(2,3) by simp
  show "\<forall>v\<in>set us. \<not> isnan (v_evalValue (varStore g1 v))"
    using evaluate_all_not_nan[OF assms(1)] assms(3) by blast
  show "decimation ties g fraction = decimate_step ties g1 us fraction"
    using assms(2,3) by (simp add: decimation_def Let_def)
qed


lemma disable_edges_step:
  assumes s1: "shrinks g g1" and vs: "varStore g1 = varStore g"
    and ih: "shrinks g1 g' \<and>
      (\<forall>e\<in>set es.
        if e_type (edgeStore g1 e) = v_value (varStore g1 v)
        then \<not> c_enabled (clauseStore g' (e_clause (edgeStore g1 e)))
        else \<not> e_enabled (edgeStore g' e))"
  shows "shrinks g g' \<and>
      (\<forall>e\<in>set es.
        if e_type (edgeStore g e) = v_value (varStore g v)
        then \<not> c_enabled (clauseStore g' (e_clause (edgeStore g e)))
        else \<not> e_enabled (edgeStore g' e))"
proof -
  have t: "\<And>e. e_type (edgeStore g1 e) = e_type (edgeStore g e)"
    and c: "\<And>e. e_clause (edgeStore g1 e) = e_clause (edgeStore g e)"
    using s1 by (simp_all add: shrinks_def)
  show ?thesis
    using shrinks_trans[OF s1] ih unfolding t c vs by blast
qed

lemma disable_edges_effect:
  "shrinks g (disable_edges g v es) \<and>
   (\<forall>e\<in>set es.
      if e_type (edgeStore g e) = v_value (varStore g v)
      then \<not> c_enabled (clauseStore (disable_edges g v es) (e_clause (edgeStore g e)))
      else \<not> e_enabled (edgeStore (disable_edges g v es) e))"
proof (induction es arbitrary: g)
  case Nil
  show ?case by (simp add: shrinks_refl)
next
  case (Cons x es)
  show ?case
  proof (cases "e_type (edgeStore g x) = v_value (varStore g v)")
    case True
    let ?g1 = "Clause_Dissable g (e_clause (edgeStore g x))"
    let ?g' = "disable_edges ?g1 v es"
    have r: "shrinks g ?g' \<and>
      (\<forall>e\<in>set es.
        if e_type (edgeStore g e) = v_value (varStore g v)
        then \<not> c_enabled (clauseStore ?g' (e_clause (edgeStore g e)))
        else \<not> e_enabled (edgeStore ?g' e))"
    proof (rule disable_edges_step[OF shrinks_Clause_Dissable _ Cons[of ?g1]])
      show "varStore ?g1 = varStore g" by (simp add: Clause_Dissable_def)
    qed
    have "shrinks ?g1 ?g'" using Cons[of ?g1] by blast
    then have "\<not> c_enabled (clauseStore ?g' (e_clause (edgeStore g x)))"
      by (auto simp: shrinks_def Clause_Dissable_def)
    then show ?thesis using True r by simp
  next
    case False
    let ?g1 = "Edge_Dissable g x"
    let ?g' = "disable_edges ?g1 v es"
    have r: "shrinks g ?g' \<and>
      (\<forall>e\<in>set es.
        if e_type (edgeStore g e) = v_value (varStore g v)
        then \<not> c_enabled (clauseStore ?g' (e_clause (edgeStore g e)))
        else \<not> e_enabled (edgeStore ?g' e))"
    proof (rule disable_edges_step[OF shrinks_Edge_Dissable _ Cons[of ?g1]])
      show "varStore ?g1 = varStore g" by (simp add: Edge_Dissable_def)
    qed
    have "shrinks ?g1 ?g'" using Cons[of ?g1] by blast
    then have "\<not> e_enabled (edgeStore ?g' x)"
      by (auto simp: shrinks_def Edge_Dissable_def)
    then show ?thesis using False r by simp
  qed
qed

lemma decimate_var_effect:
  "varStore (decimate_var g v)
     = (varStore g)(v := (varStore g v)\<lparr>v_value := dless (Fin 0) (v_evalValue (varStore g v)),
                                        v_assigned := True\<rparr>) \<and>
   variables (decimate_var g v) = variables g \<and>
   (\<forall>e\<in>set (Variable_GetEnabledEdges g v).
      if e_type (edgeStore g e) = dless (Fin 0) (v_evalValue (varStore g v))
      then \<not> c_enabled (clauseStore (decimate_var g v) (e_clause (edgeStore g e)))
      else \<not> e_enabled (edgeStore (decimate_var g v) e))"
proof -
  let ?nv = "dless (Fin 0) (v_evalValue (varStore g v))"
  let ?g1 = "AssignValue g v ?nv"
  let ?es = "Variable_GetEnabledEdges ?g1 v"
  have d: "decimate_var g v = disable_edges ?g1 v ?es"
    by (simp add: decimate_var_def Let_def)
  have es: "?es = Variable_GetEnabledEdges g v"
    using assigns_views(1)[of g ?g1]
    by (simp add: Variable_GetEnabledEdges_def edge_on_def AssignValue_def)
  have ef: "shrinks ?g1 (disable_edges ?g1 v ?es)"
    "\<forall>e\<in>set ?es.
      if e_type (edgeStore ?g1 e) = v_value (varStore ?g1 v)
      then \<not> c_enabled (clauseStore (disable_edges ?g1 v ?es) (e_clause (edgeStore ?g1 e)))
      else \<not> e_enabled (edgeStore (disable_edges ?g1 v ?es) e)"
    using disable_edges_effect[of ?g1 v ?es] by blast+
  have v1: "v_value (varStore ?g1 v) = ?nv" and e1: "edgeStore ?g1 = edgeStore g"
    by (simp_all add: AssignValue_def)
  have a: "varStore (decimate_var g v)
     = (varStore g)(v := (varStore g v)\<lparr>v_value := ?nv, v_assigned := True\<rparr>)"
    and b: "variables (decimate_var g v) = variables g"
    using ef(1) unfolding d by (simp_all add: shrinks_def AssignValue_def)
  have c: "\<forall>e\<in>set (Variable_GetEnabledEdges g v).
      if e_type (edgeStore g e) = ?nv
      then \<not> c_enabled (clauseStore (decimate_var g v) (e_clause (edgeStore g e)))
      else \<not> e_enabled (edgeStore (decimate_var g v) e)"
  proof -
    have d2: "disable_edges ?g1 v (Variable_GetEnabledEdges g v) = decimate_var g v"
      using d es by simp
    show ?thesis using ef(2) unfolding v1 e1 es d2 .
  qed
  show ?thesis using a b c by blast
qed





section \<open>Small graphs (lemmas)\<close>

lemma S1_views:
  "unit_clauses S1_graph = [1]" "GetEnabledEdges S1_graph = [1]"
  by (simp_all add: S1_graph_def unit_clauses_def GetEnabledClauses_def
      Clause_GetEnabledEdges_def edge_on_def GetEnabledEdges_def)

lemma S1_pass: "\<exists>g'. UP_pass S1_graph = Inr (True, g') \<and> GetEnabledEdges g' = []"
  by (simp add: S1_graph_def UP_pass_def unit_clauses_def GetEnabledClauses_def
      Clause_GetEnabledEdges_def edge_on_def GetEnabledEdges_def AssignValue_def
      Clause_Dissable_def)

lemmas graph_defs =
  edge_on_def GetEnabledClauses_def GetEnabledEdges_def Clause_GetEnabledEdges_def
  Variable_GetEnabledEdges_def GetUnassignedVariables_def Clause_Dissable_def
  Edge_Dissable_def AssignValue_def set_survey_def set_evalValue_def edge_sat_def
  Clause_IsSAT_def IsSAT_def unit_clauses_def

lemma S1_SP:
  "\<exists>g' rng'. SurveyPropagation counter_gen default_cfg S1_graph 0
      = (\<lparr>converged = True, iterations = 2\<rparr>, g', rng')"
  by (simp add: SurveyPropagation_def S1_graph_def counter_gen_def default_cfg_def
      GetEnabledEdges_def edge_on_def set_survey_def sp_step_def UpdateSurvey_def
      Clause_GetEnabledEdges_def hasConverged_def dsub_def sp_loop_continue sp_loop_stop)

lemma nan_graph_ratio: "isnan (ratio nan_graph 3)"
  by (simp add: ratio_def nan_graph_def graph_defs dsub_def)

lemma nan_graph_incident: "incident_surveys nan_graph 4 = [Fin 1, Fin 1]"
  by (simp add: incident_surveys_def nan_graph_def graph_defs)

lemma nan_graph_range: "surveys_in_range nan_graph"
  by (simp add: surveys_in_range_def nan_graph_def graph_defs)

lemma S1_Walksat:
  "\<exists>g' rng'. Walksat counter_gen default_cfg S1_graph 0 = Inr (True, g', rng')"
  by (simp add: Walksat_def default_cfg_def counter_gen_def S1_graph_def try_start_def
      graph_defs eval_nat_numeral)

lemma S2_fresh_views:
  assumes "S2_fresh g"
  shows "GetEnabledEdges g = [1, 2]" "Clause_GetEnabledEdges g 1 = [1]"
    "Clause_GetEnabledEdges g 2 = [2]" "Variable_GetEnabledEdges g 1 = [1, 2]"
    "GetUnassignedVariables g = [1]"
  using assms by (simp_all add: S2_fresh_def S2_shape_def graph_defs del: One_nat_def)

lemma S2_stuck_views:
  assumes "S2_stuck g"
  shows "GetEnabledEdges g = []" "Clause_GetEnabledEdges g 1 = []"
    "GetEnabledClauses g = [1]" "GetUnassignedVariables g = []" "unit_clauses g = []"
    "\<not> Clause_IsSAT g 1" "\<not> IsSAT g"
  using assms by (simp_all add: S2_stuck_def S2_shape_def graph_defs del: One_nat_def)

lemma S2_fresh_set_survey: "S2_fresh g \<Longrightarrow> S2_fresh (set_survey g e x)"
  by (auto simp: S2_fresh_def S2_shape_def set_survey_def simp del: One_nat_def)

lemma S2_update:
  "S2_fresh g \<Longrightarrow> e = 1 \<or> e = 2 \<Longrightarrow> UpdateSurvey g e = set_survey g e (Fin 1)"
  by (auto simp: UpdateSurvey_def S2_fresh_views S2_fresh_def S2_shape_def simp del: One_nat_def)

lemma S2_sweep:
  "S2_fresh g \<Longrightarrow> set es \<subseteq> {1, 2} \<Longrightarrow>
     S2_fresh (snd (sweep eps g es c)) \<and>
     e_survey (edgeStore (snd (sweep eps g es c)) 1)
       = (if 1 \<in> set es then Fin 1 else e_survey (edgeStore g 1)) \<and>
     e_survey (edgeStore (snd (sweep eps g es c)) 2)
       = (if 2 \<in> set es then Fin 1 else e_survey (edgeStore g 2))"
proof (induction es arbitrary: g c)
  case Nil
  then show ?case by simp
next
  case (Cons e es)
  then have e: "e = 1 \<or> e = 2" by auto
  have u: "UpdateSurvey g e = set_survey g e (Fin 1)"
    using S2_update[OF Cons.prems(1) e] .
  have f: "S2_fresh (set_survey g e (Fin 1))"
    using Cons.prems(1) by (rule S2_fresh_set_survey)
  show ?case
    using Cons.IH[OF f, of "if \<not> hasConverged eps g e then False else c"] Cons.prems(2) u e
    by (auto simp: set_survey_def simp del: One_nat_def)
qed

lemma S2_sweep_flag:
  "S2_fresh g \<Longrightarrow> set es \<subseteq> {1, 2} \<Longrightarrow> e_survey (edgeStore g 1) = Fin 1
     \<Longrightarrow> e_survey (edgeStore g 2) = Fin 1 \<Longrightarrow> 0 < x
     \<Longrightarrow> fst (sweep (Fin x) g es c) = c"
proof (induction es arbitrary: g c)
  case Nil
  then show ?case by simp
next
  case (Cons e es)
  then have e: "e = 1 \<or> e = 2" by auto
  have u: "UpdateSurvey g e = set_survey g e (Fin 1)"
    using S2_update[OF Cons.prems(1) e] .
  have f: "S2_fresh (set_survey g e (Fin 1))"
    using Cons.prems(1) by (rule S2_fresh_set_survey)
  have h: "hasConverged (Fin x) g e"
    using e u Cons.prems(3,4,5)
    by (auto simp: hasConverged_def set_survey_def dsub_def simp del: One_nat_def)
  have "fst (sweep (Fin x) (set_survey g e (Fin 1)) es c) = c"
    using Cons.IH[OF f] Cons.prems e by (auto simp: set_survey_def simp del: One_nat_def)
  then show ?case using u h by simp
qed

lemma S2_fresh_init: "S2_fresh g \<Longrightarrow> S2_fresh (fst (init_surveys R g rng es))"
proof (induction es arbitrary: g rng)
  case Nil
  then show ?case by simp
next
  case (Cons e es)
  obtain x r where d: "getRandomReal01 R rng = (x, r)" by (cases "getRandomReal01 R rng")
  show ?case
    using Cons.IH[OF S2_fresh_set_survey[OF Cons.prems], of e x r] d by simp
qed

lemma S2_SP:
  assumes f: "S2_fresh g"
    and sh: "\<And>es r. set (fst (shuffle R es r)) = set es"
    and m: "2 \<le> SP_MAX_ITERATIONS cfg"
    and eps: "SP_EPSILON cfg = Fin x" "0 < x"
  shows "\<exists>r g1 rng1. SurveyPropagation R cfg g rng = (r, g1, rng1) \<and> converged r \<and>
           S2_fresh g1 \<and> e_survey (edgeStore g1 1) = Fin 1 \<and> e_survey (edgeStore g1 2) = Fin 1"
proof -
  obtain g0 rng0 where init: "init_surveys R g rng [1, 2] = (g0, rng0)"
    by (cases "init_surveys R g rng [1, 2]")
  have f0: "S2_fresh g0" using S2_fresh_init[OF f, of R rng "[1, 2]"] init by simp
  let ?s0 = "([1, 2], g0, rng0, False)"
  have start: "SurveyPropagation R cfg g rng = sp_loop R cfg 0 ?s0 0"
    using init by (simp add: SurveyPropagation_def S2_fresh_views[OF f])
  obtain es1 r1 where s1: "shuffle R [1, 2] rng0 = (es1, r1)" by (cases "shuffle R [1, 2] rng0")
  have e1: "set es1 = {1, 2}" using sh[of "[1, 2]" rng0] s1 by auto
  obtain c1 g1 where w1: "sweep (Fin x) g0 es1 True = (c1, g1)"
    by (cases "sweep (Fin x) g0 es1 True")
  have p1: "S2_fresh g1" "e_survey (edgeStore g1 1) = Fin 1" "e_survey (edgeStore g1 2) = Fin 1"
    using S2_sweep[OF f0, of es1 "Fin x" True] e1 w1 by auto
  have st1: "sp_step R cfg ?s0 = (es1, g1, r1, c1)"
    using s1 w1 eps(1) by (simp add: sp_step_def)
  have l1: "sp_loop R cfg 0 ?s0 0 = sp_loop R cfg 1 (es1, g1, r1, c1) 1"
    using sp_loop_continue[of 0 cfg ?s0 R 0] m st1 by simp
  show ?thesis
  proof (cases c1)
    case True
    then have "sp_loop R cfg 1 (es1, g1, r1, c1) 1 = (\<lparr>converged = True, iterations = 1\<rparr>, g1, r1)"
      using sp_loop_stop[of 1 cfg "(es1, g1, r1, c1)" R 1] by simp
    then show ?thesis using start l1 p1 by simp
  next
    case False
    obtain es2 r2 where s2: "shuffle R es1 r1 = (es2, r2)" by (cases "shuffle R es1 r1")
    have e2: "set es2 = {1, 2}" using sh[of es1 r1] s2 e1 by auto
    obtain c2 g2 where w2: "sweep (Fin x) g1 es2 True = (c2, g2)"
      by (cases "sweep (Fin x) g1 es2 True")
    have p2: "S2_fresh g2" "e_survey (edgeStore g2 1) = Fin 1" "e_survey (edgeStore g2 2) = Fin 1"
      using S2_sweep[OF p1(1), of es2 "Fin x" True] e2 w2 by auto
    have c2: "c2" using S2_sweep_flag[OF p1(1) _ p1(2) p1(3) eps(2), of es2 True] e2 w2 by simp
    have st2: "sp_step R cfg (es1, g1, r1, c1) = (es2, g2, r2, c2)"
      using s2 w2 eps(1) by (simp add: sp_step_def)
    have l2: "sp_loop R cfg 1 (es1, g1, r1, c1) 1 = sp_loop R cfg (1 + 1) (es2, g2, r2, c2) (1 + 1)"
      using sp_loop_continue[of 1 cfg "(es1, g1, r1, c1)" R 1] m st2 False by simp
    have "sp_loop R cfg (1 + 1) (es2, g2, r2, c2) (1 + 1)
        = (\<lparr>converged = True, iterations = 1 + 1\<rparr>, g2, r2)"
      using sp_loop_stop[of "1 + 1" cfg "(es2, g2, r2, c2)" R "1 + 1"] c2 by simp
    then show ?thesis using start l1 l2 p2 by simp
  qed
qed

lemma S2_SP_stuck:
  assumes f: "S2_stuck g"
    and sh: "\<And>es r. set (fst (shuffle R es r)) = set es"
    and m: "1 \<le> SP_MAX_ITERATIONS cfg"
  shows "\<exists>r rng1. SurveyPropagation R cfg g rng = (r, g, rng1) \<and> converged r"
proof -
  let ?s0 = "([], g, rng, False)"
  have start: "SurveyPropagation R cfg g rng = sp_loop R cfg 0 ?s0 0"
    by (simp add: SurveyPropagation_def S2_stuck_views[OF f])
  obtain es1 r1 where s1: "shuffle R [] rng = (es1, r1)" by (cases "shuffle R [] rng")
  have e1: "es1 = []" using sh[of "[]" rng] s1 by simp
  have st1: "sp_step R cfg ?s0 = ([], g, r1, True)"
    using s1 e1 by (simp add: sp_step_def)
  have l1: "sp_loop R cfg 0 ?s0 0 = sp_loop R cfg 1 ([], g, r1, True) 1"
    using sp_loop_continue[of 0 cfg ?s0 R 0] m st1 by simp
  have "sp_loop R cfg 1 ([], g, r1, True) 1 = (\<lparr>converged = True, iterations = 1\<rparr>, g, r1)"
    using sp_loop_stop[of 1 cfg "([], g, r1, True)" R 1] by simp
  then show ?thesis using start l1 by simp
qed

lemma S2_decimation:
  assumes f: "S2_fresh g" and s: "e_survey (edgeStore g 1) = Fin 1" "e_survey (edgeStore g 2) = Fin 1"
    and fr: "0 \<le> x" "x \<le> 1"
  shows "\<exists>g3. decimation ties g (Fin x) = Inr g3 \<and> S2_stuck g3"
proof -
  have ev: "evaluate_all g [1] = set_evalValue g 1 (Fin 0)"
    using f s by (simp add: EvaluateVariable_def bias_def S2_fresh_views[OF f] S2_fresh_def
        S2_shape_def dsub_def del: One_nat_def)
  have af: "assignFraction 1 (Fin x) = Inr (max 1 \<lfloor>round_double x\<rfloor>)"
    using assignFraction_value(1)[of 1 x] fr by simp
  have "nat (max 1 \<lfloor>round_double x\<rfloor>) \<le> 1"
    using assignFraction_value(2)[of 1 x] fr by simp
  then have "max 1 \<lfloor>round_double x\<rfloor> \<le> 1" by linarith
  moreover have "1 \<le> max 1 \<lfloor>round_double x\<rfloor>" by simp
  ultimately have "max 1 \<lfloor>round_double x\<rfloor> = 1" by linarith
  then have k: "assignFraction 1 (Fin x) = Inr 1" using af by simp
  let ?g2 = "set_evalValue g 1 (Fin 0)"
  have f2: "S2_fresh ?g2" using f by (auto simp: S2_fresh_def S2_shape_def set_evalValue_def)
  have dv: "S2_stuck (decimate_var ?g2 1)"
    using f by (simp add: decimate_var_def graph_defs S2_fresh_def S2_shape_def S2_stuck_def
        del: One_nat_def)
  have "decimation ties g (Fin x) = Inr (decimate_var ?g2 1)"
    using ev k
    by (simp add: decimation_def decimate_step_def S2_fresh_views[OF f] std_sort_def Let_def)
  then show ?thesis using dv by simp
qed

lemma S2_flip_step:
  assumes "S2_stuck g"
  shows "\<exists>err. flip_step R cfg g rng = Inl err"
proof -
  have sat: "filter (Clause_IsSAT g) (GetEnabledClauses g) = []"
    and unsat: "filter (\<lambda>c. \<not> Clause_IsSAT g c) (GetEnabledClauses g) = [1]"
    using S2_stuck_views[OF assms] by simp_all
  show ?thesis
    unfolding flip_step_def sat unsat
    by (auto simp: Let_def random_element_def flip_lowest_def S2_stuck_views[OF assms]
        simp del: One_nat_def split: prod.splits sum.splits)
qed

lemma S2_Walksat:
  assumes "S2_stuck g" and "1 \<le> WS_MAX_TRIES cfg" and "1 \<le> WS_MAX_FLIPS cfg"
  shows "\<exists>err. Walksat R cfg g rng = Inl err"
proof -
  obtain n where n: "WS_MAX_TRIES cfg = Suc n" using assms(2) by (cases "WS_MAX_TRIES cfg") auto
  obtain m where m: "WS_MAX_FLIPS cfg = Suc m" using assms(3) by (cases "WS_MAX_FLIPS cfg") auto
  obtain err where e: "flip_step R cfg g rng = Inl err" using S2_flip_step[OF assms(1), of R cfg rng] by blast
  have "flips R cfg (Suc m) g rng = Inl err"
    using e S2_stuck_views[OF assms(1)] by simp
  then have "tries R cfg (Suc n) g rng = Inl err"
    using m by (simp add: try_start_def S2_stuck_views[OF assms(1)])
  then show ?thesis using n by (simp add: Walksat_def)
qed

lemma S2_graph_fresh: "S2_fresh S2_graph"
  by (simp add: S2_fresh_def S2_shape_def S2_graph_def)

lemma S2_round1:
  assumes f: "S2_fresh g"
    and sh: "\<And>es r. set (fst (shuffle R es r)) = set es"
    and m: "2 \<le> SP_MAX_ITERATIONS cfg"
    and eps: "SP_EPSILON cfg = Fin x" "0 < x"
    and fr: "0 \<le> y" "y \<le> 1"
  shows "\<exists>g' rng' t'. SID_round ties R cfg (Fin y) g rng t = Inr (Inr (g', rng', t')) \<and> S2_stuck g'"
proof -
  obtain r g1 rng1 where sp: "SurveyPropagation R cfg g rng = (r, g1, rng1)" "converged r"
    and f1: "S2_fresh g1" and s1: "e_survey (edgeStore g1 1) = Fin 1" "e_survey (edgeStore g1 2) = Fin 1"
    using S2_SP[OF f sh m eps, of rng] by blast
  have nt: "\<not> allTrivial g1"
    using s1 by (simp add: allTrivial_def S2_fresh_views[OF f1] dne_def)
  obtain g3 where d: "decimation ties g1 (Fin y) = Inr g3" and st: "S2_stuck g3"
    using S2_decimation[OF f1 s1 fr] by blast
  have up: "UnitPropagation g3 = Inr (True, g3)"
    using S2_stuck_views(5)[OF st] by (rule UnitPropagation_no_units)
  show ?thesis
    using sp nt d st up S2_stuck_views(7)[OF st] by (simp add: SID_round_def Let_def)
qed

lemma S2_round2:
  assumes f: "S2_stuck g"
    and sh: "\<And>es r. set (fst (shuffle R es r)) = set es"
    and m: "1 \<le> SP_MAX_ITERATIONS cfg"
    and w: "1 \<le> WS_MAX_TRIES cfg" "1 \<le> WS_MAX_FLIPS cfg"
  shows "\<exists>err. SID_round ties R cfg fraction g rng t = Inl err"
proof -
  obtain r rng1 where sp: "SurveyPropagation R cfg g rng = (r, g, rng1)" "converged r"
    using S2_SP_stuck[OF f sh m, of rng] by blast
  have tr: "allTrivial g"
    by (simp add: allTrivial_def S2_stuck_views[OF f])
  obtain err where "Walksat R cfg g rng1 = Inl err"
    using S2_Walksat[OF f w, of R rng1] by blast
  then show ?thesis
    using sp tr by (simp add: SID_round_def Let_def)
qed

lemma S2_decimated_stuck: "S2_stuck S2_decimated"
  by (simp add: S2_decimated_def S2_graph_def S2_stuck_def S2_shape_def graph_defs)

lemma pair_SP:
  "\<exists>g1. SurveyPropagation counter_gen default_cfg pair_graph 0
      = (\<lparr>converged = True, iterations = 2\<rparr>, g1, 4) \<and>
     variables g1 = [1, 2] \<and> clauses g1 = [1] \<and> edges g1 = [1, 2] \<and>
     varStore g1 = varStore pair_graph \<and> clauseStore g1 = clauseStore pair_graph \<and>
     edgeStore g1 = edgeStore pair_graph"
  by (simp add: SurveyPropagation_def pair_graph_def counter_gen_def default_cfg_def
      graph_defs sp_step_def UpdateSurvey_def ratio_def
      hasConverged_def dsub_def sp_loop_continue sp_loop_stop fun_eq_iff)

lemma pair_SP_graph:
  "SurveyPropagation counter_gen default_cfg pair_graph 0
      = (\<lparr>converged = True, iterations = 2\<rparr>, pair_graph, 4)"
proof -
  obtain g1 where sp: "SurveyPropagation counter_gen default_cfg pair_graph 0
      = (\<lparr>converged = True, iterations = 2\<rparr>, g1, 4)"
    and eq: "variables g1 = [1, 2]" "clauses g1 = [1]" "edges g1 = [1, 2]"
     "varStore g1 = varStore pair_graph" "clauseStore g1 = clauseStore pair_graph"
     "edgeStore g1 = edgeStore pair_graph"
    using pair_SP by blast
  have "g1 = pair_graph"
    using eq by (intro FactorGraph.equality) (simp_all add: pair_graph_def)
  then show ?thesis using sp by simp
qed

lemma pair_Walksat:
  "\<exists>g2 rng2. Walksat counter_gen default_cfg pair_graph 4 = Inr (True, g2, rng2)"
  by (simp add: Walksat_def default_cfg_def counter_gen_def pair_graph_def try_start_def
      graph_defs tries_pos flips_pos)

lemma S2_try:
  "\<exists>g1 g2 rng2. try_start counter_gen S2_graph 0 = (g1, 1) \<and> v_value (varStore g1 1) \<and>
     flips counter_gen default_cfg 2 g1 1 = Inr (False, g2, rng2) \<and> v_value (varStore g2 1)"
  by (simp add: try_start_def S2_graph_def counter_gen_def default_cfg_def graph_defs
      flips_pos flip_step_def random_element_def flip_lowest_def flip_def Let_def)






section \<open>The sweeps of survey propagation (lemmas)\<close>

lemma sp_sweeps_range:
  "surveys_in_range (fst (snd s)) \<Longrightarrow> surveys_in_range (fst (snd (sp_sweeps R cfg k s)))"
  by (induction k) (simp_all add: sp_sweeps_def sp_step_range)

lemma sp_start_range:
  assumes "\<And>r. unit_range (fst (getRandomReal01 R r))"
  shows "surveys_in_range (fst (snd (sp_start R g rng)))"
proof -
  obtain g0 rng0 where i: "init_surveys R g rng (GetEnabledEdges g) = (g0, rng0)"
    by (cases "init_surveys R g rng (GetEnabledEdges g)")
  then show ?thesis using init_surveys_range[OF i] assms by (simp add: sp_start_def)
qed

section \<open>The invariant of the loop of SID (lemmas)\<close>

lemma only_surveys_refl: "only_surveys g g"
  by (simp add: only_surveys_def)

lemma only_surveys_trans: "only_surveys g g1 \<Longrightarrow> only_surveys g1 g2 \<Longrightarrow> only_surveys g g2"
  by (simp add: only_surveys_def)

lemma only_surveys_set_survey: "only_surveys g (set_survey g e x)"
  by (simp add: only_surveys_def set_survey_def)

lemma only_surveys_UpdateSurvey: "only_surveys g (UpdateSurvey g e)"
  by (simp add: UpdateSurvey_def only_surveys_set_survey)

lemma only_surveys_init: "only_surveys g (fst (init_surveys R g rng es))"
proof (induction es arbitrary: g rng)
  case Nil
  show ?case by (simp add: only_surveys_refl)
next
  case (Cons e es)
  obtain x r where d: "getRandomReal01 R rng = (x, r)" by (cases "getRandomReal01 R rng")
  show ?case
    using only_surveys_trans[OF only_surveys_set_survey[of g e x] Cons[of "set_survey g e x" r]] d
    by simp
qed

lemma only_surveys_sweep: "only_surveys g (snd (sweep eps g es c))"
proof (induction es arbitrary: g c)
  case Nil
  show ?case by (simp add: only_surveys_refl)
next
  case (Cons e es)
  show ?case
    using only_surveys_trans[OF only_surveys_UpdateSurvey[of g e] Cons[of "UpdateSurvey g e"]]
    by simp
qed

lemma only_surveys_sp_step: "only_surveys (fst (snd s)) (fst (snd (sp_step R cfg s)))"
proof -
  obtain es g rng c where s: "s = (es, g, rng, c)" by (metis prod_cases4)
  obtain es' rng' where sh: "shuffle R es rng = (es', rng')" by (cases "shuffle R es rng")
  have "fst (snd (sp_step R cfg s)) = snd (sweep (SP_EPSILON cfg) g es' True)"
    using s sh by (simp add: sp_step_def split: prod.splits)
  then show ?thesis using only_surveys_sweep[of g] s by simp
qed

lemma only_surveys_sp_loop:
  "only_surveys (fst (snd s)) (fst (snd (sp_loop R cfg i s totalIt)))"
proof (induction R cfg i s totalIt rule: sp_loop.induct)
  case (1 R cfg i s totalIt)
  show ?case
  proof (cases "i < SP_MAX_ITERATIONS cfg \<and> \<not> snd (snd (snd s))")
    case True
    then show ?thesis
      using 1 only_surveys_trans[OF only_surveys_sp_step[of s R cfg]]
      by (simp add: sp_loop_continue)
  next
    case False
    then show ?thesis by (simp add: sp_loop_stop only_surveys_refl)
  qed
qed

lemma only_surveys_SurveyPropagation:
  "only_surveys g (fst (snd (SurveyPropagation R cfg g rng)))"
proof -
  have "only_surveys g (fst (snd (sp_start R g rng)))"
    using only_surveys_init[of g R rng "GetEnabledEdges g"]
    by (auto simp: sp_start_def split: prod.splits)
  then show ?thesis
    using only_surveys_trans only_surveys_sp_loop
    unfolding SurveyPropagation_start by blast
qed

lemma only_surveys_views:
  assumes "only_surveys g g'"
  shows "edge_on g' = edge_on g"
    and "GetEnabledEdges g' = GetEnabledEdges g"
    and "GetUnassignedVariables g' = GetUnassignedVariables g"
    and "wf_graph g' = wf_graph g"
    and "no_assigned_edges g' = no_assigned_edges g"
proof -
  show a: "edge_on g' = edge_on g"
    using assms by (auto simp: only_surveys_def edge_on_def fun_eq_iff)
  show b: "GetEnabledEdges g' = GetEnabledEdges g"
    using assms a by (simp add: only_surveys_def GetEnabledEdges_def)
  show "GetUnassignedVariables g' = GetUnassignedVariables g"
    using assms by (simp add: only_surveys_def GetUnassignedVariables_def)
  show "wf_graph g' = wf_graph g"
    using assms by (simp add: only_surveys_def wf_graph_def)
  show "no_assigned_edges g' = no_assigned_edges g"
    using assms b by (simp add: only_surveys_def no_assigned_edges_def)
qed

lemma only_bias_wf:
  assumes "only_bias g g'"
  shows "wf_graph g' = wf_graph g" and "no_assigned_edges g' = no_assigned_edges g"
  using assms only_bias_views(2)[OF assms]
  by (simp_all add: only_bias_def wf_graph_def no_assigned_edges_def)

lemma shrinks_wf: "shrinks g g' \<Longrightarrow> wf_graph g' = wf_graph g"
  by (simp add: shrinks_def wf_graph_def)

lemma assigns_wf: "assigns g g' \<Longrightarrow> wf_graph g' = wf_graph g"
  by (simp add: assigns_def wf_graph_def)

lemma no_assigned_edges_decimate_var:
  assumes "no_assigned_edges g"
  shows "no_assigned_edges (decimate_var g v)"
proof -
  let ?nv = "dless (Fin 0) (v_evalValue (varStore g v))"
  let ?g1 = "AssignValue g v ?nv"
  let ?g' = "decimate_var g v"
  have d: "?g' = disable_edges ?g1 v (Variable_GetEnabledEdges ?g1 v)"
    by (simp add: decimate_var_def Let_def)
  have s: "shrinks ?g1 ?g'" unfolding d using disable_edges_effect by blast
  have eff: "\<forall>e\<in>set (Variable_GetEnabledEdges g v).
      if e_type (edgeStore g e) = ?nv
      then \<not> c_enabled (clauseStore ?g' (e_clause (edgeStore g e)))
      else \<not> e_enabled (edgeStore ?g' e)"
    and vs: "varStore ?g' = (varStore g)(v := (varStore g v)\<lparr>v_value := ?nv, v_assigned := True\<rparr>)"
    using decimate_var_effect[of g v] by blast+
  have on1: "edge_on ?g1 = edge_on g" by (auto simp: edge_on_def AssignValue_def fun_eq_iff)
  have es: "edges ?g' = edges g" and ev: "\<And>e. e_variable (edgeStore ?g' e) = e_variable (edgeStore g e)"
    and ec: "\<And>e. e_clause (edgeStore ?g' e) = e_clause (edgeStore g e)"
    using s by (simp_all add: shrinks_def AssignValue_def)
  have "\<And>e. e \<in> set (GetEnabledEdges ?g') \<Longrightarrow>
          \<not> v_assigned (varStore ?g' (e_variable (edgeStore ?g' e)))"
  proof -
    fix e assume e: "e \<in> set (GetEnabledEdges ?g')"
    then have ein: "e \<in> set (edges g)" and on': "edge_on ?g' e"
      using es by (simp_all add: GetEnabledEdges_def)
    have on: "edge_on g e" using shrinks_edge_on[OF s on'] on1 by simp
    then have un: "\<not> v_assigned (varStore g (e_variable (edgeStore g e)))"
      using assms ein by (simp add: no_assigned_edges_def GetEnabledEdges_def list_all_iff)
    have "e_variable (edgeStore g e) \<noteq> v"
    proof
      assume "e_variable (edgeStore g e) = v"
      then have "e \<in> set (Variable_GetEnabledEdges g v)"
        using ein on by (simp add: Variable_GetEnabledEdges_def)
      then have "\<not> c_enabled (clauseStore ?g' (e_clause (edgeStore g e)))
          \<or> \<not> e_enabled (edgeStore ?g' e)"
        using eff by (auto split: if_splits)
      then show False using on' ec by (simp add: edge_on_def)
    qed
    then show "\<not> v_assigned (varStore ?g' (e_variable (edgeStore ?g' e)))"
      using un unfolding ev vs by simp
  qed
  then show ?thesis by (simp add: no_assigned_edges_def list_all_iff)
qed

lemma decimate_var_frame:
  "variables (decimate_var g v) = variables g \<and> wf_graph (decimate_var g v) = wf_graph g \<and>
   (\<forall>u. v_assigned (varStore g u) \<longrightarrow> v_assigned (varStore (decimate_var g v) u)) \<and>
   v_assigned (varStore (decimate_var g v) v)"
proof -
  let ?g1 = "AssignValue g v (dless (Fin 0) (v_evalValue (varStore g v)))"
  have s: "shrinks ?g1 (decimate_var g v)"
    using disable_edges_effect by (simp add: decimate_var_def Let_def)
  have "wf_graph (decimate_var g v) = wf_graph ?g1" using shrinks_wf[OF s] .
  moreover have "wf_graph ?g1 = wf_graph g" by (simp add: wf_graph_def AssignValue_def)
  ultimately show ?thesis
    using decimate_var_effect[of g v] by simp
qed

lemma decimate_loop_inv:
  "decimate_loop g vs i n = Inr g' \<Longrightarrow>
     (no_assigned_edges g \<longrightarrow> no_assigned_edges g') \<and> wf_graph g' = wf_graph g \<and>
     variables g' = variables g \<and>
     (\<forall>u. v_assigned (varStore g u) \<longrightarrow> v_assigned (varStore g' u)) \<and>
     (0 < n \<longrightarrow> i < length vs \<and> v_assigned (varStore g' (vs ! i)))"
proof (induction n arbitrary: g i)
  case 0
  then show ?case by simp
next
  case (Suc n)
  then have i: "i < length vs" by (auto split: if_splits)
  let ?g1 = "decimate_var g (vs ! i)"
  have rest: "decimate_loop ?g1 vs (i + 1) n = Inr g'" using Suc.prems i by simp
  show ?case
    using Suc.IH[OF rest] decimate_var_frame[of g "vs ! i"]
      no_assigned_edges_decimate_var[of g "vs ! i"] i
    by auto
qed

lemma clean_edges_keeps:
  "\<not> v_assigned (varStore g (e_variable (edgeStore g e)))
     \<Longrightarrow> e_enabled (edgeStore (clean_edges g c es) e) = e_enabled (edgeStore g e)"
proof (induction es arbitrary: g)
  case Nil
  show ?case by simp
next
  case (Cons x es)
  let ?vx = "e_variable (edgeStore g x)"
  show ?case
  proof (cases "v_assigned (varStore g ?vx)")
    case False
    then show ?thesis using Cons.IH[OF Cons.prems] by simp
  next
    case True
    then have ne: "x \<noteq> e" using Cons.prems by auto
    show ?thesis
    proof (cases "e_type (edgeStore g x) = v_value (varStore g ?vx)")
      case True
      then show ?thesis using \<open>v_assigned (varStore g ?vx)\<close> by (simp add: Clause_Dissable_def)
    next
      case False
      let ?g1 = "Edge_Dissable g x"
      have u: "\<not> v_assigned (varStore ?g1 (e_variable (edgeStore ?g1 e)))"
        using Cons.prems ne by (simp add: Edge_Dissable_def)
      have "e_enabled (edgeStore (clean_edges ?g1 c es) e) = e_enabled (edgeStore ?g1 e)"
        using Cons.IH[OF u] .
      moreover have "e_enabled (edgeStore ?g1 e) = e_enabled (edgeStore g e)"
        using ne by (simp add: Edge_Dissable_def)
      ultimately show ?thesis using True False by simp
    qed
  qed
qed

lemma clean_clauses_keeps:
  "clean_clauses g cs = (ok, g') \<Longrightarrow> \<not> v_assigned (varStore g (e_variable (edgeStore g e)))
     \<Longrightarrow> e_enabled (edgeStore g' e) = e_enabled (edgeStore g e)"
proof (induction cs arbitrary: g)
  case Nil
  then show ?case by simp
next
  case (Cons c cs)
  let ?g1 = "clean_edges g c (Clause_GetEnabledEdges g c)"
  have s1: "shrinks g ?g1" by (rule shrinks_clean_edges)
  have k1: "e_enabled (edgeStore ?g1 e) = e_enabled (edgeStore g e)"
    using Cons.prems(2) by (rule clean_edges_keeps)
  have u1: "\<not> v_assigned (varStore ?g1 (e_variable (edgeStore ?g1 e)))"
    using Cons.prems(2) s1 by (simp add: shrinks_def)
  from Cons.prems(1) have "g' = ?g1 \<or> clean_clauses ?g1 cs = (ok, g')"
    by (auto simp: Let_def split: if_splits)
  then show ?case using Cons.IH[OF _ u1] k1 by auto
qed

lemma clean_clauses_nonempty:
  "clean_clauses g cs = (True, g') \<Longrightarrow> c \<in> set cs \<Longrightarrow> c_enabled (clauseStore g' c)
     \<Longrightarrow> Clause_GetEnabledEdges g' c \<noteq> []"
proof (induction cs arbitrary: g)
  case Nil
  then show ?case by simp
next
  case (Cons c' cs)
  let ?g1 = "clean_edges g c' (Clause_GetEnabledEdges g c')"
  have test: "\<not> (c_enabled (clauseStore ?g1 c') \<and> Clause_GetEnabledEdges ?g1 c' = [])"
    and rest: "clean_clauses ?g1 cs = (True, g')"
    using Cons.prems(1) by (auto simp: Let_def split: if_splits)
  have s1: "shrinks g ?g1" by (rule shrinks_clean_edges)
  have s2: "shrinks ?g1 g'" using rest by (rule shrinks_clean_clauses)
  show ?case
  proof (cases "c \<in> set cs")
    case True
    then show ?thesis using Cons.IH rest Cons.prems(3) by blast
  next
    case False
    then have c: "c = c'" using Cons.prems(2) by simp
    have "c_enabled (clauseStore ?g1 c')" using Cons.prems(3) s2 c by (simp add: shrinks_def)
    then obtain e where e1: "e \<in> set (Clause_GetEnabledEdges ?g1 c')"
      using test by (cases "Clause_GetEnabledEdges ?g1 c'") auto
    then have e0: "e \<in> set (Clause_GetEnabledEdges g c')"
      using shrinks_Clause_edges[OF s1] by simp
    have un: "\<not> v_assigned (varStore g (e_variable (edgeStore g e)))"
      using clean_edges_unassigned e1 e0 by blast
    then have un1: "\<not> v_assigned (varStore ?g1 (e_variable (edgeStore ?g1 e)))"
      using s1 by (simp add: shrinks_def)
    have "e_enabled (edgeStore g' e) = e_enabled (edgeStore ?g1 e)"
      using clean_clauses_keeps[OF rest un1] .
    moreover have "e \<in> set (edges ?g1)" "e_clause (edgeStore ?g1 e) = c'" "e_enabled (edgeStore ?g1 e)"
      using e1 by (simp_all add: Clause_GetEnabledEdges_def edge_on_def)
    ultimately have "e \<in> set (Clause_GetEnabledEdges g' c')"
      using Cons.prems(3) c s2 by (simp add: Clause_GetEnabledEdges_def edge_on_def shrinks_def)
    then show ?thesis using c by auto
  qed
qed

lemma UP_pass_clean:
  assumes "UP_pass g = Inr (True, g')"
  shows "contradictory_clauses g' = []"
    and "wf_graph g \<Longrightarrow> no_assigned_edges g'" and "wf_graph g' = wf_graph g"
proof -
  obtain g1 where au: "assign_units g (unit_clauses g) = Inr (True, g1)"
    and cc: "clean_clauses g1 (GetEnabledClauses g1) = (True, g')"
    using assms by (auto simp: UP_pass_def split: sum.splits if_splits)
  have a: "assigns g g1" using au by (rule assigns_assign_units)
  have s: "shrinks g1 g'" using cc by (rule shrinks_clean_clauses)
  have sub: "\<And>c. c \<in> set (GetEnabledClauses g') \<Longrightarrow> c \<in> set (GetEnabledClauses g1)"
    using s by (auto simp: GetEnabledClauses_def shrinks_def)
  have "\<And>c. c \<in> set (GetEnabledClauses g') \<Longrightarrow> Clause_GetEnabledEdges g' c \<noteq> []"
  proof -
    fix c assume c: "c \<in> set (GetEnabledClauses g')"
    then have "c_enabled (clauseStore g' c)" by (simp add: GetEnabledClauses_def)
    then show "Clause_GetEnabledEdges g' c \<noteq> []"
      using clean_clauses_nonempty[OF cc sub[OF c]] by simp
  qed
  then show "contradictory_clauses g' = []"
    by (auto simp: contradictory_clauses_def filter_empty_conv)
  show w: "wf_graph g' = wf_graph g"
    using shrinks_wf[OF s] assigns_wf[OF a] by simp
  show "no_assigned_edges g'" if wf: "wf_graph g"
  proof -
    have "\<And>e. e \<in> set (GetEnabledEdges g') \<Longrightarrow>
            \<not> v_assigned (varStore g' (e_variable (edgeStore g' e)))"
    proof -
      fix e assume e: "e \<in> set (GetEnabledEdges g')"
      let ?c = "e_clause (edgeStore g' e)"
      have ein: "e \<in> set (edges g')" and on: "edge_on g' e"
        using e by (simp_all add: GetEnabledEdges_def)
      have "?c \<in> set (clauses g')"
        using wf w ein by (simp add: wf_graph_def list_all_iff)
      then have "?c \<in> set (GetEnabledClauses g')"
        using on by (simp add: GetEnabledClauses_def edge_on_def)
      then have c1: "?c \<in> set (GetEnabledClauses g1)" by (rule sub)
      have "e \<in> set (Clause_GetEnabledEdges g' ?c)"
        using ein on by (simp add: Clause_GetEnabledEdges_def)
      then show "\<not> v_assigned (varStore g' (e_variable (edgeStore g' e)))"
        using clean_clauses_unassigned[OF cc c1] by simp
    qed
    then show ?thesis by (simp add: no_assigned_edges_def list_all_iff)
  qed
qed

lemma UnitPropagation_clean:
  "UnitPropagation g = Inr (True, g') \<Longrightarrow> wf_graph g
     \<Longrightarrow> unit_clauses g \<noteq> [] \<or> (contradictory_clauses g = [] \<and> no_assigned_edges g)
     \<Longrightarrow> contradictory_clauses g' = [] \<and> no_assigned_edges g' \<and> wf_graph g'"
proof (induction g rule: UnitPropagation.induct)
  case (1 g)
  show ?case
  proof (cases "unit_clauses g = []")
    case True
    then have "g' = g" using "1.prems"(1) by (simp add: UnitPropagation_no_units)
    then show ?thesis using "1.prems" True by simp
  next
    case False
    then obtain g1 where p: "UP_pass g = Inr (True, g1)"
      and r: "UnitPropagation g1 = Inr (True, g')"
      using "1.prems"(1)
      by (auto simp: UnitPropagation_pass split: sum.splits prod.splits if_splits)
    have c1: "contradictory_clauses g1 = []" "no_assigned_edges g1" "wf_graph g1"
      using UP_pass_clean[OF p] "1.prems"(2) by simp_all
    have "length (unit_clauses g) \<noteq> 0" using False by simp
    then show ?thesis
      using "1.IH"[OF _ p refl _ r c1(3)] c1 by simp
  qed
qed

lemma UnitPropagation_unassigned:
  "UnitPropagation g = Inr (ok, g')
     \<Longrightarrow> length (GetUnassignedVariables g') \<le> length (GetUnassignedVariables g)"
proof (induction g rule: UnitPropagation.induct)
  case (1 g)
  show ?case
  proof (cases "unit_clauses g = []")
    case True
    then have "g' = g" using "1.prems"(1) by (simp add: UnitPropagation_no_units)
    then show ?thesis by simp
  next
    case False
    then obtain b g1 where p: "UP_pass g = Inr (b, g1)"
      and r: "(\<not> b \<and> g' = g1) \<or> (b \<and> UnitPropagation g1 = Inr (ok, g'))"
      using "1.prems"(1)
      by (auto simp: UnitPropagation_pass split: sum.splits prod.splits if_splits)
    have l1: "length (GetUnassignedVariables g1) \<le> length (GetUnassignedVariables g)"
      using UP_pass_unassigned[OF p] .
    have n: "length (unit_clauses g) \<noteq> 0" using False by simp
    show ?thesis
    proof (cases b)
      case False
      then show ?thesis using r l1 by simp
    next
      case True
      then have "length (GetUnassignedVariables g') \<le> length (GetUnassignedVariables g1)"
        using "1.IH"[OF n p refl] r by simp
      then show ?thesis using l1 by simp
    qed
  qed
qed

lemma UnitPropagation_inv:
  "UnitPropagation g = Inr (True, g') \<Longrightarrow> wf_graph g \<Longrightarrow> no_assigned_edges g
     \<Longrightarrow> no_assigned_edges g' \<and> wf_graph g'"
proof (induction g rule: UnitPropagation.induct)
  case (1 g)
  show ?case
  proof (cases "unit_clauses g = []")
    case True
    then have "g' = g" using "1.prems"(1) by (simp add: UnitPropagation_no_units)
    then show ?thesis using "1.prems" by simp
  next
    case False
    then obtain g1 where p: "UP_pass g = Inr (True, g1)"
      and r: "UnitPropagation g1 = Inr (True, g')"
      using "1.prems"(1)
      by (auto simp: UnitPropagation_pass split: sum.splits prod.splits if_splits)
    have c1: "no_assigned_edges g1" "wf_graph g1"
      using UP_pass_clean[OF p] "1.prems"(2) by simp_all
    have "length (unit_clauses g) \<noteq> 0" using False by simp
    then show ?thesis
      using "1.IH"[OF _ p refl _ r c1(2) c1(1)] by simp
  qed
qed

lemma assignFraction_pos: "assignFraction n fraction = Inr k \<Longrightarrow> 1 \<le> k"
  by (auto simp: assignFraction_def split: sum.splits if_splits)

lemma decimation_inv:
  assumes "decimation ties g fraction = Inr g'"
  shows "(no_assigned_edges g \<longrightarrow> no_assigned_edges g') \<and> wf_graph g' = wf_graph g \<and>
         length (GetUnassignedVariables g') < length (GetUnassignedVariables g)"
proof -
  let ?us = "GetUnassignedVariables g"
  let ?g1 = "evaluate_all g ?us"
  let ?vs = "std_sort ties ?g1 ?us"
  obtain k where af: "assignFraction (length ?us) fraction = Inr k"
    and dl: "decimate_loop ?g1 ?vs 0 (nat k) = Inr g'"
    using assms by (auto simp: decimation_def decimate_step_def Let_def split: sum.splits)
  have k: "0 < nat k" using assignFraction_pos[OF af] by simp
  have ob: "only_bias g ?g1" by (rule only_bias_evaluate_all)
  have li: "(no_assigned_edges ?g1 \<longrightarrow> no_assigned_edges g')" "wf_graph g' = wf_graph ?g1"
    "variables g' = variables ?g1"
    "\<And>u. v_assigned (varStore ?g1 u) \<Longrightarrow> v_assigned (varStore g' u)"
    "0 < length ?vs" "v_assigned (varStore g' (?vs ! 0))"
    using decimate_loop_inv[OF dl] k by simp_all
  have "?vs ! 0 \<in> set ?vs" using li(5) by simp
  then have y: "?vs ! 0 \<in> set ?us" using std_sort_perm(1)[of ties ?g1 ?us] by simp
  then have y1: "?vs ! 0 \<in> set (variables g)" "\<not> v_assigned (varStore g (?vs ! 0))"
    by (simp_all add: GetUnassignedVariables_def)
  have mono: "\<And>u. v_assigned (varStore g u) \<Longrightarrow> v_assigned (varStore g' u)"
    using li(4) ob by (simp add: only_bias_def)
  have vg: "variables g' = variables g" using li(3) ob by (simp add: only_bias_def)
  have "length (filter (\<lambda>v. \<not> v_assigned (varStore g' v)) (variables g))
      < length (filter (\<lambda>v. \<not> v_assigned (varStore g v)) (variables g))"
    using mono y1 li(6) by (intro filter_length_strict[where y = "?vs ! 0"]) auto
  then have "length (GetUnassignedVariables g') < length (GetUnassignedVariables g)"
    using vg by (simp add: GetUnassignedVariables_def)
  then show ?thesis
    using li(1,2) only_bias_wf[OF ob] by simp
qed

lemma nontrivial_unassigned:
  assumes "wf_graph g" and "no_assigned_edges g" and "\<not> allTrivial g"
  shows "GetUnassignedVariables g \<noteq> []"
proof -
  obtain e where e: "e \<in> set (GetEnabledEdges g)"
    using assms(3) by (auto simp: allTrivial_def list_ex_iff)
  then have "e \<in> set (edges g)" by (simp add: GetEnabledEdges_def)
  then have "e_variable (edgeStore g e) \<in> set (variables g)"
    using assms(1) by (simp add: wf_graph_def list_all_iff)
  moreover have "\<not> v_assigned (varStore g (e_variable (edgeStore g e)))"
    using assms(2) e by (simp add: no_assigned_edges_def list_all_iff)
  ultimately have "e_variable (edgeStore g e) \<in> set (GetUnassignedVariables g)"
    by (simp add: GetUnassignedVariables_def)
  then show ?thesis by auto
qed

lemma SID_round_progress:
  assumes "SID_round ties R cfg fraction g rng t = Inr (Inr (g', rng', t'))"
    and "wf_graph g" and "no_assigned_edges g"
  shows "wf_graph g' \<and> no_assigned_edges g' \<and>
         length (GetUnassignedVariables g') < length (GetUnassignedVariables g)"
proof -
  obtain r g1 rng1 where sp: "SurveyPropagation R cfg g rng = (r, g1, rng1)"
    by (metis prod_cases3)
  have os: "only_surveys g g1"
    using only_surveys_SurveyPropagation[of g R cfg rng] sp by simp
  obtain g3 where d: "decimation ties g1 fraction = Inr g3"
    and up: "UnitPropagation g3 = Inr (True, g')"
    using assms(1) sp
    by (auto simp: SID_round_def Let_def split: if_splits sum.splits prod.splits)
  have i1: "wf_graph g1" "no_assigned_edges g1"
    using only_surveys_views(4,5)[OF os] assms(2,3) by simp_all
  have i3: "wf_graph g3" "no_assigned_edges g3"
    and l3: "length (GetUnassignedVariables g3) < length (GetUnassignedVariables g1)"
    using decimation_inv[OF d] i1 by simp_all
  have "length (GetUnassignedVariables g') \<le> length (GetUnassignedVariables g3)"
    using up by (rule UnitPropagation_unassigned)
  then have "length (GetUnassignedVariables g') < length (GetUnassignedVariables g)"
    using l3 only_surveys_views(3)[OF os] by simp
  then show ?thesis using UnitPropagation_inv[OF up i3] by simp
qed

lemma SID_loop_returns:
  "wf_graph g \<Longrightarrow> no_assigned_edges g \<Longrightarrow> \<exists>res. SID_loop ties R cfg fraction g rng t = Some res"
proof (induction "length (GetUnassignedVariables g)" arbitrary: g rng t rule: less_induct)
  case less
  show ?case
  proof (cases "SID_round ties R cfg fraction g rng t")
    case (Inl err)
    then show ?thesis by (subst SID_loop.simps) simp
  next
    case (Inr x)
    show ?thesis
    proof (cases x)
      case (Inl res)
      then show ?thesis using Inr by (subst SID_loop.simps) simp
    next
      case (Inr s)
      obtain g' rng' t' where s: "s = (g', rng', t')" by (metis prod_cases3)
      have r: "SID_round ties R cfg fraction g rng t = Inr (Inr (g', rng', t'))"
        using \<open>SID_round ties R cfg fraction g rng t = Inr x\<close> Inr s by simp
      have p: "wf_graph g'" "no_assigned_edges g'"
        "length (GetUnassignedVariables g') < length (GetUnassignedVariables g)"
        using SID_round_progress[OF r less.prems] by simp_all
      obtain res where "SID_loop ties R cfg fraction g' rng' t' = Some res"
        using less.hyps[OF p(3) p(1) p(2)] by blast
      then show ?thesis using r by (subst SID_loop.simps) simp
    qed
  qed
qed

lemma S1_UP:
  "\<exists>g'. UnitPropagation S1_graph = Inr (True, g')"
proof -
  obtain g' where p: "UP_pass S1_graph = Inr (True, g')" and e: "GetEnabledEdges g' = []"
    using S1_pass by blast
  have "unit_clauses g' = []"
  proof -
    have "\<And>c. Clause_GetEnabledEdges g' c = []"
    proof -
      fix c
      show "Clause_GetEnabledEdges g' c = []"
      proof (cases "Clause_GetEnabledEdges g' c")
        case Nil
        then show ?thesis .
      next
        case (Cons a as)
        then have "a \<in> set (Clause_GetEnabledEdges g' c)" by simp
        then have "a \<in> set (GetEnabledEdges g')" by (rule Clause_edges_enabled)
        then show ?thesis using e by simp
      qed
    qed
    then show ?thesis by (simp add: unit_clauses_def)
  qed
  then have "UnitPropagation g' = Inr (True, g')" by (rule UnitPropagation_no_units)
  then show ?thesis
    using p S1_views(1) by (simp add: UnitPropagation_pass)
qed

lemma small_graphs_wf:
  "wf_graph S1_graph" "no_assigned_edges S1_graph" "wf_graph S2_graph" "no_assigned_edges S2_graph"
  by (simp_all add: wf_graph_def no_assigned_edges_def S1_graph_def S2_graph_def graph_defs)

chapter \<open>The claims\<close>

section \<open>Termination of unit propagation\<close>

text \<open>
  C8. Unit propagation terminates on every factor graph: the loop returns within as many
  passes as the graph has enabled edges, plus one; and every pass of the loop that does
  not return strictly decreases the number of enabled edges, while the number of
  unassigned variables does not grow.
\<close>

theorem UnitPropagation_terminates:
  "UP_passes (Suc (length (GetEnabledEdges g))) g = Some (UnitPropagation g) \<and>
   (length (unit_clauses g) \<noteq> 0 \<and> UP_pass g = Inr (True, g') \<longrightarrow>
      length (GetEnabledEdges g') < length (GetEnabledEdges g) \<and>
      length (GetUnassignedVariables g') \<le> length (GetUnassignedVariables g))"
  using UP_passes_enough[of g "Suc (length (GetEnabledEdges g))"]
    UP_pass_decreases[of g g'] UP_pass_unassigned[of g True g']
  by auto

theorem UnitPropagation_terminates_witness:
  "\<exists>g'. length (unit_clauses S1_graph) \<noteq> 0 \<and> UP_pass S1_graph = Inr (True, g') \<and>
      length (GetEnabledEdges g') < length (GetEnabledEdges S1_graph) \<and>
      UP_passes (Suc (length (GetEnabledEdges S1_graph))) S1_graph
        = Some (UnitPropagation S1_graph)"
proof -
  obtain g' where p: "UP_pass S1_graph = Inr (True, g')"
    using S1_pass by blast
  have u: "length (unit_clauses S1_graph) \<noteq> 0"
    by (simp add: S1_views)
  show ?thesis
    using UnitPropagation_terminates[of S1_graph g'] p u by blast
qed

section \<open>The sweeps of survey propagation\<close>

text \<open>
  C4. Survey propagation performs at most \<open>SP_MAX_ITERATIONS\<close> sweeps. It returns
  \<open>converged = true\<close> iff the flag of some sweep within the cap is set, that is, iff that
  sweep changed every edge it updated by less than \<open>SP_EPSILON\<close> in absolute value; it
  stops at the first such sweep; without one it runs the cap out; and \<open>iterations\<close> is the
  number of sweeps executed: the graph and the random source returned are those after that
  many sweeps.
\<close>

theorem SurveyPropagation_sweeps:
  assumes "SurveyPropagation R cfg g rng = (r, g', rng')"
  shows "iterations r \<le> SP_MAX_ITERATIONS cfg \<and>
    (converged r \<longleftrightarrow>
      (\<exists>k. 1 \<le> k \<and> k \<le> SP_MAX_ITERATIONS cfg \<and> sweep_flag R cfg (sp_start R g rng) k)) \<and>
    (converged r \<longrightarrow> sweep_flag R cfg (sp_start R g rng) (iterations r) \<and>
      (\<forall>k<iterations r. \<not> sweep_flag R cfg (sp_start R g rng) k)) \<and>
    (\<not> converged r \<longrightarrow> iterations r = SP_MAX_ITERATIONS cfg) \<and>
    g' = fst (snd (sp_sweeps R cfg (iterations r) (sp_start R g rng))) \<and>
    rng' = fst (snd (snd (sp_sweeps R cfg (iterations r) (sp_start R g rng)))) \<and>
    (\<forall>eps h es. fst (sweep eps h es True) = list_all (\<lambda>b. b) (sweep_changes eps h es))"
proof -
  let ?s = "sp_start R g rng"
  let ?M = "SP_MAX_ITERATIONS cfg"
  obtain j where a: "\<forall>j'<j. j' < ?M \<and> \<not> sweep_flag R cfg ?s j'"
    and b: "?M \<le> j \<or> sweep_flag R cfg ?s j"
    and c: "sp_loop R cfg 0 ?s 0 =
         (\<lparr>converged = sweep_flag R cfg ?s j, iterations = j\<rparr>,
          fst (snd (sp_sweeps R cfg j ?s)), fst (snd (snd (sp_sweeps R cfg j ?s))))"
    using sp_loop_sweeps[of 0 cfg R ?s 0] unfolding sweep_flag_def by auto
  have r: "converged r = sweep_flag R cfg ?s j" "iterations r = j"
    and g: "g' = fst (snd (sp_sweeps R cfg j ?s))"
      "rng' = fst (snd (snd (sp_sweeps R cfg j ?s)))"
    using assms c by (auto simp: SurveyPropagation_start)
  have le: "j \<le> ?M"
  proof (rule ccontr)
    assume "\<not> j \<le> ?M"
    then have "?M < j" by simp
    then show False using a by blast
  qed
  have j1: "sweep_flag R cfg ?s j \<Longrightarrow> 1 \<le> j"
    using sp_start_flag[of R cfg g rng] by (cases j) auto
  have first: "\<And>k. k \<le> ?M \<Longrightarrow> sweep_flag R cfg ?s k \<Longrightarrow> sweep_flag R cfg ?s j"
  proof -
    fix k assume k: "k \<le> ?M" "sweep_flag R cfg ?s k"
    then have "\<not> k < j" using a by blast
    then have "j \<le> k" by simp
    show "sweep_flag R cfg ?s j"
    proof (cases "j = k")
      case True
      then show ?thesis using k by simp
    next
      case False
      then have "j < ?M" using \<open>j \<le> k\<close> k(1) by simp
      then show ?thesis using b by simp
    qed
  qed
  show ?thesis
    using r g le a b j1 first sweep_changes_flag[where c = True] by auto
qed

theorem SurveyPropagation_sweeps_witness:
  "\<exists>r g' rng'. SurveyPropagation counter_gen default_cfg S1_graph 0 = (r, g', rng') \<and>
      iterations r = 2 \<and> iterations r \<le> SP_MAX_ITERATIONS default_cfg \<and> converged r \<and>
      sweep_flag counter_gen default_cfg (sp_start counter_gen S1_graph 0) (iterations r) \<and>
      \<not> sweep_flag counter_gen default_cfg (sp_start counter_gen S1_graph 0) 1"
proof -
  obtain g' rng' where e: "SurveyPropagation counter_gen default_cfg S1_graph 0
      = (\<lparr>converged = True, iterations = 2\<rparr>, g', rng')"
    using S1_SP by blast
  show ?thesis
    using SurveyPropagation_sweeps[OF e] e by auto
qed

section \<open>The range of the surveys\<close>

text \<open>
  C5. When the surveys that the update of an edge reads all lie in [0,1], the survey it
  writes lies in [0,1] and is not \<open>NaN\<close>. When the quotient of some neighbour is \<open>NaN\<close>,
  the survey written is exactly 0. Hence a sweep keeps the surveys of the enabled edges in
  [0,1]; and with a random source whose reals lie in [0,1], the surveys of the enabled edges
  lie in [0,1] after every sweep of survey propagation and when it returns.
\<close>

theorem UpdateSurvey_unit_interval:
  "(list_all unit_range (incident_surveys g ai) \<longrightarrow>
      unit_range (e_survey (edgeStore (UpdateSurvey g ai) ai)) \<and>
      \<not> isnan (e_survey (edgeStore (UpdateSurvey g ai) ai))) \<and>
   (aj \<in> set (Clause_GetEnabledEdges g (e_clause (edgeStore g ai))) \<and> aj \<noteq> ai \<and>
      isnan (ratio g aj) \<longrightarrow> e_survey (edgeStore (UpdateSurvey g ai) ai) = Fin 0) \<and>
   (surveys_in_range g \<longrightarrow>
      surveys_in_range (UpdateSurvey g ai) \<and> surveys_in_range (snd (sweep eps g es c))) \<and>
   ((\<forall>r. unit_range (fst (getRandomReal01 R r))) \<longrightarrow>
      surveys_in_range (fst (snd (sp_sweeps R cfg k (sp_start R g rng)))) \<and>
      surveys_in_range (fst (snd (SurveyPropagation R cfg g rng))))"
proof -
  have n: "\<And>x. unit_range x \<Longrightarrow> \<not> isnan x"
    by (auto simp: unit_range_iff)
  have a: "list_all unit_range (incident_surveys g ai) \<Longrightarrow>
      unit_range (e_survey (edgeStore (UpdateSurvey g ai) ai)) \<and>
      \<not> isnan (e_survey (edgeStore (UpdateSurvey g ai) ai))"
    using incident_surveys_range n by blast
  have b: "aj \<in> set (Clause_GetEnabledEdges g (e_clause (edgeStore g ai))) \<Longrightarrow> aj \<noteq> ai \<Longrightarrow>
      isnan (ratio g aj) \<Longrightarrow> e_survey (edgeStore (UpdateSurvey g ai) ai) = Fin 0"
    by (simp add: UpdateSurvey_def set_survey_def survey_loop_nan)
  have c: "surveys_in_range g \<Longrightarrow>
      surveys_in_range (UpdateSurvey g ai) \<and> surveys_in_range (snd (sweep eps g es c))"
    using UpdateSurvey_range(2) sweep_range by blast
  have d: "(\<forall>r. unit_range (fst (getRandomReal01 R r))) \<Longrightarrow>
      surveys_in_range (fst (snd (sp_sweeps R cfg k (sp_start R g rng)))) \<and>
      surveys_in_range (fst (snd (SurveyPropagation R cfg g rng)))"
  proof -
    assume "\<forall>r. unit_range (fst (getRandomReal01 R r))"
    then have s: "surveys_in_range (fst (snd (sp_start R g rng)))"
      using sp_start_range[of R g rng] by simp
    have "surveys_in_range (fst (snd (sp_loop R cfg 0 (sp_start R g rng) 0)))"
      using s by (rule sp_loop_range)
    moreover have "surveys_in_range (fst (snd (sp_sweeps R cfg k (sp_start R g rng))))"
      using s by (rule sp_sweeps_range)
    ultimately show ?thesis by (simp add: SurveyPropagation_start)
  qed
  show ?thesis using a b c d by blast
qed

theorem UpdateSurvey_unit_interval_witness:
  "list_all unit_range (incident_surveys nan_graph 4) \<and>
   3 \<in> set (Clause_GetEnabledEdges nan_graph (e_clause (edgeStore nan_graph 4))) \<and>
   isnan (ratio nan_graph 3) \<and>
   e_survey (edgeStore (UpdateSurvey nan_graph 4) 4) = Fin 0 \<and>
   surveys_in_range nan_graph \<and>
   surveys_in_range (UpdateSurvey nan_graph 4) \<and>
   (\<forall>r. unit_range (fst (getRandomReal01 counter_gen r))) \<and>
   surveys_in_range (fst (snd (SurveyPropagation counter_gen default_cfg nan_graph 0)))"
proof -
  have i: "list_all unit_range (incident_surveys nan_graph 4)"
    by (simp add: nan_graph_incident)
  have m: "3 \<in> set (Clause_GetEnabledEdges nan_graph (e_clause (edgeStore nan_graph 4)))"
    by (simp add: nan_graph_def graph_defs)
  have r: "\<forall>r. unit_range (fst (getRandomReal01 counter_gen r))"
    by (simp add: counter_gen_def)
  show ?thesis
    using UpdateSurvey_unit_interval[of nan_graph 4 3 "SP_EPSILON default_cfg" "[]" True
        counter_gen default_cfg 0 0]
      i m r nan_graph_ratio nan_graph_range
    by simp
qed

section \<open>The frame of Walksat\<close>

text \<open>
  C10. Walksat never modifies the topology: whenever it returns, with success or with
  failure, the graph's vectors, every clause (its enabled flag), every edge (its enabled
  flag, its survey, its type and its end points) and every variable's bias are as before
  the call; only the value and the assigned flag of variables may differ.
\<close>

theorem Walksat_frame:
  "Walksat R cfg g rng = Inr (b, g', rng') \<Longrightarrow>
     clauseStore g' = clauseStore g \<and> edgeStore g' = edgeStore g \<and>
     clauses g' = clauses g \<and> edges g' = edges g \<and> variables g' = variables g \<and>
     (\<forall>v. v_evalValue (varStore g' v) = v_evalValue (varStore g v)) \<and>
     GetEnabledClauses g' = GetEnabledClauses g \<and> GetEnabledEdges g' = GetEnabledEdges g"
proof -
  assume "Walksat R cfg g rng = Inr (b, g', rng')"
  then have o: "only_values g g'"
    using only_values_tries[of R cfg "WS_MAX_TRIES cfg" g rng b g' rng'] by (simp add: Walksat_def)
  moreover have "GetEnabledClauses g' = GetEnabledClauses g" "GetEnabledEdges g' = GetEnabledEdges g"
    using only_values_views[OF o] by simp_all
  ultimately show ?thesis by (simp add: only_values_def)
qed

theorem Walksat_frame_witness:
  "\<exists>g' rng'. Walksat counter_gen default_cfg S1_graph 0 = Inr (True, g', rng') \<and>
     clauseStore g' = clauseStore S1_graph \<and> edgeStore g' = edgeStore S1_graph \<and>
     GetEnabledEdges g' = GetEnabledEdges S1_graph"
proof -
  obtain g' rng' where w: "Walksat counter_gen default_cfg S1_graph 0 = Inr (True, g', rng')"
    using S1_Walksat by blast
  show ?thesis using Walksat_frame[OF w] w by blast
qed

section \<open>Scenario S2\<close>

text \<open>
  C1. On the graph of \<open>p cnf 1 2\<close>, \<open>1 0\<close>, \<open>-1 0\<close> SID does not return \<open>SAT = false\<close>
  from a contradiction of unit propagation. With every random source whose shuffle
  permutes, every seed, every order of \<open>std::sort\<close>, every fraction of [0,1], a cap of
  at least two sweeps, a positive \<open>SP_EPSILON\<close> and at least one try of at least one flip:
  the first round decimates
  variable 1 to false (its bias is the coerced \<open>NaN\<close>), which disables edge 1 and clause 2;
  unit propagation finds no unit clause and returns success although clause 1 is enabled
  and empty; the second round calls Walksat, which selects the empty clause and runs into
  undefined behaviour (the null \<open>lowestBreakCountVar\<close>, or a distribution over an empty
  range).
\<close>

theorem SID_S2_undefined:
  assumes "\<And>es r. set (fst (shuffle R es r)) = set es"
    and "2 \<le> SP_MAX_ITERATIONS cfg"
    and "SP_EPSILON cfg = Fin x" and "0 < x"
    and "1 \<le> WS_MAX_TRIES cfg" and "1 \<le> WS_MAX_FLIPS cfg"
    and "0 \<le> y" and "y \<le> 1"
  shows "\<exists>err. SID ties R cfg S2_graph (Fin y) rng = Some (Inl err)"
proof -
  obtain g' rng' t' where r1: "SID_round ties R cfg (Fin y) S2_graph rng 0 = Inr (Inr (g', rng', t'))"
    and st: "S2_stuck g'"
    using S2_round1[where ties = ties and rng = rng and t = 0, OF S2_graph_fresh assms(1,2,3,4,7,8)] by blast
  have m: "1 \<le> SP_MAX_ITERATIONS cfg" using assms(2) by simp
  obtain err where r2: "SID_round ties R cfg (Fin y) g' rng' t' = Inl err"
    using S2_round2[where ties = ties and fraction = "Fin y" and rng = rng' and t = t',
        OF st assms(1) m assms(5,6)] by blast
  have "SID_loop ties R cfg (Fin y) g' rng' t' = Some (Inl err)"
    using r2 by (subst SID_loop.simps) simp
  then have "SID_loop ties R cfg (Fin y) S2_graph rng 0 = Some (Inl err)"
    using r1 by (subst SID_loop.simps) simp
  then show ?thesis by (simp add: SID_def)
qed

theorem SID_S2_undefined_witness:
  "(\<forall>es r. set (fst (shuffle counter_gen es r)) = set es) \<and>
   2 \<le> SP_MAX_ITERATIONS default_cfg \<and> SP_EPSILON default_cfg = Fin (1 / 100) \<and>
   1 \<le> WS_MAX_TRIES default_cfg \<and> 1 \<le> WS_MAX_FLIPS default_cfg \<and>
   (\<exists>err. SID keep_order counter_gen default_cfg S2_graph (Fin (4 / 100)) 0 = Some (Inl err))"
proof -
  have sh: "\<And>es r. set (fst (shuffle counter_gen es r)) = set es"
    by (simp add: counter_gen_def)
  have c: "2 \<le> SP_MAX_ITERATIONS default_cfg" "SP_EPSILON default_cfg = Fin (1 / 100)"
    "1 \<le> WS_MAX_TRIES default_cfg" "1 \<le> WS_MAX_FLIPS default_cfg"
    by (simp_all add: default_cfg_def)
  have "\<exists>err. SID keep_order counter_gen default_cfg S2_graph (Fin (4 / 100)) 0 = Some (Inl err)"
    using SID_S2_undefined[where ties = keep_order and x = "1 / 100" and y = "4 / 100" and rng = 0,
        OF sh c(1,2) _ c(3,4)]
    by simp
  then show ?thesis using sh c by simp
qed

text \<open>
  C2. Unit propagation can return success on a graph in which an enabled clause has no
  enabled edge: on the graph that the decimation step of SID leaves of scenario S2 it
  finds no unit clause, returns success at once and leaves the graph as it is, clause 1
  enabled and empty.
\<close>

theorem UnitPropagation_misses_empty_clause:
  "UnitPropagation S2_decimated = Inr (True, S2_decimated) \<and>
   contradictory_clauses S2_decimated = [1]"
  using S2_stuck_views[OF S2_decimated_stuck]
  by (simp add: UnitPropagation_no_units contradictory_clauses_def del: One_nat_def)

section \<open>The triviality branch of SID\<close>

text \<open>
  C7. In every round of the loop of SID in which survey propagation converged and every
  enabled edge has survey 0 (none among them when there is no enabled edge), SID calls
  Walksat on the graph that survey propagation left and returns Walksat's boolean as
  \<open>SAT\<close>, with the sweeps counted so far; neither bias evaluation nor decimation runs. When
  Walksat runs into undefined behaviour, so does SID.
\<close>

theorem SID_trivial_surveys:
  assumes "SurveyPropagation R cfg g rng = (r, g1, rng1)"
    and "converged r"
    and "list_all (\<lambda>e. e_survey (edgeStore g1 e) = Fin 0) (GetEnabledEdges g1)"
  shows "SID_loop ties R cfg fraction g rng t =
     (case Walksat R cfg g1 rng1 of
        Inl err \<Rightarrow> Some (Inl err)
      | Inr (walksatResult, g2, rng2) \<Rightarrow>
          Some (Inr (\<lparr>SAT = walksatResult, totalSPIterations = t + of_nat (iterations r)\<rparr>,
                     g2, rng2)))"
proof -
  have "allTrivial g1" using assms(3) by (simp add: allTrivial_iff)
  then have "SID_round ties R cfg fraction g rng t =
     (case Walksat R cfg g1 rng1 of
        Inl err \<Rightarrow> Inl err
      | Inr (walksatResult, g2, rng2) \<Rightarrow>
          Inr (Inl (\<lparr>SAT = walksatResult, totalSPIterations = t + of_nat (iterations r)\<rparr>,
                     g2, rng2)))"
    using assms(1,2) by (simp add: SID_round_def Let_def)
  then show ?thesis
    by (subst SID_loop.simps) (simp split: sum.splits prod.splits)
qed

theorem SID_trivial_surveys_witness:
  "\<exists>r g1 rng1. SurveyPropagation counter_gen default_cfg pair_graph 0 = (r, g1, rng1) \<and>
     converged r \<and>
     list_all (\<lambda>e. e_survey (edgeStore g1 e) = Fin 0) (GetEnabledEdges g1) \<and>
     (\<exists>g2 rng2. SID_loop keep_order counter_gen default_cfg (Fin (4 / 100)) pair_graph 0 0
        = Some (Inr (\<lparr>SAT = True, totalSPIterations = 2\<rparr>, g2, rng2)))"
proof -
  let ?r = "\<lparr>converged = True, iterations = 2\<rparr>"
  have z: "list_all (\<lambda>e. e_survey (edgeStore pair_graph e) = Fin 0) (GetEnabledEdges pair_graph)"
    by (simp add: pair_graph_def graph_defs)
  have c: "converged ?r" by simp
  obtain g2 rng2 where w: "Walksat counter_gen default_cfg pair_graph 4 = Inr (True, g2, rng2)"
    using pair_Walksat by blast
  have "SID_loop keep_order counter_gen default_cfg (Fin (4 / 100)) pair_graph 0 0
        = Some (Inr (\<lparr>SAT = True, totalSPIterations = 2\<rparr>, g2, rng2))"
    using SID_trivial_surveys[where ties = keep_order and fraction = "Fin (4 / 100)" and t = 0,
        OF pair_SP_graph c z] w by simp
  then show ?thesis using pair_SP_graph z by auto
qed

section \<open>The tries of Walksat\<close>

text \<open>
  C3. Only the first try of Walksat assigns random booleans. \<open>AssignValue\<close> sets the
  assigned flag, so after the start of a try no variable of the graph is unassigned, the
  flips keep it so, and at the start of the next try the loop of lines 167-169 runs over
  an empty vector: it assigns nothing and draws nothing, and the try goes on from the
  assignment that the try before left.
\<close>

theorem Walksat_later_tries_draw_nothing:
  assumes "try_start R g rng = (g1, rng1)"
    and "flips R cfg n g1 rng1 = Inr (found, g2, rng2)"
  shows "GetUnassignedVariables g1 = [] \<and> GetUnassignedVariables g2 = [] \<and>
         try_start R g2 rng2 = (g2, rng2)"
proof -
  have a: "GetUnassignedVariables g1 = []"
    using assms(1) by (rule try_start_all_assigned)
  have "GetUnassignedVariables g2 = []"
    using keeps_assigned_unassigned[OF keeps_assigned_flips[OF assms(2)] a] .
  then show ?thesis using a by (simp add: try_start_def)
qed

theorem Walksat_later_tries_draw_nothing_witness:
  "\<exists>g1 rng1 g2 rng2. try_start counter_gen S2_graph 0 = (g1, rng1) \<and>
     flips counter_gen default_cfg 2 g1 rng1 = Inr (False, g2, rng2) \<and>
     GetUnassignedVariables S2_graph = [1] \<and> GetUnassignedVariables g2 = [] \<and>
     try_start counter_gen g2 rng2 = (g2, rng2)"
proof -
  obtain g1 g2 rng2 where t: "try_start counter_gen S2_graph 0 = (g1, 1)"
    and f: "flips counter_gen default_cfg 2 g1 1 = Inr (False, g2, rng2)"
    using S2_try by blast
  have u: "GetUnassignedVariables S2_graph = [1]"
    by (simp add: S2_fresh_views[OF S2_graph_fresh])
  show ?thesis
    using Walksat_later_tries_draw_nothing[OF t f] t f u by blast
qed

section \<open>The decimation step of SID\<close>



section \<open>Further properties\<close>

text \<open>
  When unit propagation returns success on a graph whose edges point to clauses and
  variables of the graph, and either a pass of its loop ran (some clause was unit) or the
  graph was clean already, then no enabled clause is without an enabled edge and no
  enabled edge has an assigned variable: lines 130-152 establish it on every path but the
  immediate return of line 111 on an unclean graph.
\<close>

theorem UnitPropagation_success_clean:
  "UnitPropagation g = Inr (True, g') \<Longrightarrow> wf_graph g
     \<Longrightarrow> unit_clauses g \<noteq> [] \<or> (contradictory_clauses g = [] \<and> no_assigned_edges g)
     \<Longrightarrow> contradictory_clauses g' = [] \<and> no_assigned_edges g'"
  using UnitPropagation_clean by blast

theorem UnitPropagation_success_clean_witness:
  "\<exists>g'. UnitPropagation S1_graph = Inr (True, g') \<and> wf_graph S1_graph \<and>
     unit_clauses S1_graph \<noteq> [] \<and> contradictory_clauses g' = [] \<and> no_assigned_edges g'"
proof -
  obtain g' where u: "UnitPropagation S1_graph = Inr (True, g')" using S1_UP by blast
  have n: "unit_clauses S1_graph \<noteq> []" by (simp add: S1_views)
  show ?thesis
    using UnitPropagation_success_clean[OF u small_graphs_wf(1)] u n small_graphs_wf(1) by blast
qed

text \<open>
  The invariant of the loop of SID: the edges point into the graph, and no enabled edge
  has an assigned variable. Survey propagation keeps it; with it, a graph whose surveys
  are not all zero has an unassigned variable, so that the decimation step never reads
  its sorted vector at index 0 in vain; and a round after which the loop goes on keeps
  the invariant and has strictly fewer unassigned variables.
\<close>

theorem SID_round_invariant:
  assumes "wf_graph g" and "no_assigned_edges g"
    and "SurveyPropagation R cfg g rng = (r, g1, rng1)"
  shows "wf_graph g1 \<and> no_assigned_edges g1 \<and>
    (\<not> allTrivial g1 \<longrightarrow> GetUnassignedVariables g1 \<noteq> []) \<and>
    (\<forall>g' rng' t'. SID_round ties R cfg fraction g rng t = Inr (Inr (g', rng', t')) \<longrightarrow>
       wf_graph g' \<and> no_assigned_edges g' \<and>
       length (GetUnassignedVariables g') < length (GetUnassignedVariables g))"
proof -
  have os: "only_surveys g g1"
    using only_surveys_SurveyPropagation[of g R cfg rng] assms(3) by simp
  have i1: "wf_graph g1" "no_assigned_edges g1"
    using only_surveys_views(4,5)[OF os] assms(1,2) by simp_all
  have p: "\<And>g' rng' t'. SID_round ties R cfg fraction g rng t = Inr (Inr (g', rng', t')) \<Longrightarrow>
       wf_graph g' \<and> no_assigned_edges g' \<and>
       length (GetUnassignedVariables g') < length (GetUnassignedVariables g)"
    using SID_round_progress[where ties = ties and R = R and cfg = cfg and fraction = fraction
        and rng = rng and t = t, OF _ assms(1,2)] by blast
  show ?thesis
    using i1 nontrivial_unassigned[OF i1] p by blast
qed

theorem SID_round_invariant_witness:
  "wf_graph S2_graph \<and> no_assigned_edges S2_graph \<and>
   (\<exists>g' rng' t'. SID_round keep_order counter_gen default_cfg (Fin (4 / 100)) S2_graph 0 0
        = Inr (Inr (g', rng', t')) \<and>
      wf_graph g' \<and> no_assigned_edges g' \<and>
      length (GetUnassignedVariables g') < length (GetUnassignedVariables S2_graph))"
proof -
  have sh: "\<And>es r. set (fst (shuffle counter_gen es r)) = set es"
    by (simp add: counter_gen_def)
  have c: "2 \<le> SP_MAX_ITERATIONS default_cfg" "SP_EPSILON default_cfg = Fin (1 / 100)"
    by (simp_all add: default_cfg_def)
  obtain g' rng' t' where r: "SID_round keep_order counter_gen default_cfg (Fin (4 / 100)) S2_graph 0 0
        = Inr (Inr (g', rng', t'))"
    using S2_round1[where ties = keep_order and y = "4 / 100" and rng = 0 and t = 0,
        OF S2_graph_fresh sh c] by auto
  obtain r0 g1 rng1 where sp: "SurveyPropagation counter_gen default_cfg S2_graph 0 = (r0, g1, rng1)"
    by (metis prod_cases3)
  show ?thesis
    using SID_round_invariant[where ties = keep_order and fraction = "Fin (4 / 100)" and t = 0,
        OF small_graphs_wf(3,4) sp] r
      small_graphs_wf(3,4)
    by blast
qed

text \<open>
  SID returns: from a graph with the invariant of its loop, the \<open>while (true)\<close> of line
  256 ends after at most as many rounds as there are unassigned variables, plus one
  (with a result, or in the undefined behaviour of one of its steps).
\<close>

theorem SID_returns:
  "wf_graph g \<Longrightarrow> no_assigned_edges g \<Longrightarrow> \<exists>res. SID ties R cfg g fraction rng = Some res"
  using SID_loop_returns by (simp add: SID_def)

theorem SID_returns_witness:
  "wf_graph S1_graph \<and> no_assigned_edges S1_graph \<and>
   (\<exists>res. SID keep_order counter_gen default_cfg S1_graph (Fin (4 / 100)) 0 = Some res)"
  using SID_returns[where ties = keep_order and R = counter_gen and cfg = default_cfg
      and fraction = "Fin (4 / 100)" and rng = 0, OF small_graphs_wf(1,2)]
    small_graphs_wf(1,2)
  by simp

end
